theory Spec2Isabelle
  imports Complex_Main "HOL-Library.Log_Nat"
begin

section \<open>Data model (app/core.py)\<close>

text \<open>
  A Python \<open>str\<close> is a sequence of Unicode code points. It is modelled as a list of
  natural numbers (the code points), so that the Unicode-aware operations of the source
  (\<open>str.strip\<close>, the regex class \<open>\s\<close>, the Latin-1 letter ranges) can be written out.
  \<open>ustr\<close> turns an ASCII literal into such a string.
\<close>

type_synonym ustring = "nat list"

definition ustr :: "string \<Rightarrow> ustring" where
  "ustr s = map of_char s"

text \<open>\<open>Literal["match", "partial", "missing"]\<close>\<close>

datatype match_status = Match | Partial | Missing

text \<open>\<open>Literal["high", "medium", "low"]\<close> (impact, priority and confidence)\<close>

datatype level = High | Medium | Low

text \<open>\<open>Literal["cv", "linkedin", "both"]\<close>\<close>

datatype placement = Cv | Linkedin | Both

record MatchItem =
  requirement :: ustring
  status :: match_status
  evidence :: "ustring list"

record GapItem =
  gap :: ustring
  impact :: level
  how_to_fix :: "ustring list"

text \<open>Field names that are Isabelle keywords or shared by two classes carry a prefix.\<close>

record SuggestionItem =
  sg_section :: ustring
  sg_change :: ustring
  sg_reason :: ustring
  sg_priority :: level

record LinkedInSuggestionItem =
  li_section :: ustring
  li_change :: ustring
  li_reason :: ustring
  li_priority :: level

record ATSKeywordItem =
  ats_keyword :: ustring
  ats_where_to_add :: placement
  ats_note :: ustring

record FitReport =
  fit_score :: int
  confidence :: level
  summary :: ustring
  must_have_match :: "MatchItem list"
  nice_to_have_match :: "MatchItem list"
  gaps :: "GapItem list"
  cv_suggestions :: "SuggestionItem list"
  linkedin_suggestions :: "LinkedInSuggestionItem list"
  ats_keywords :: "ATSKeywordItem list"
  final_note :: ustring

text \<open>
  The exceptions of the program, each with its message (\<open>str(e)\<close>). The source raises
  \<open>ValueError\<close> and \<open>RuntimeError\<close> itself; the others come from the libraries it calls:
  \<open>ValidationError\<close> is what pydantic raises when a model cannot be built from its input.
\<close>

datatype error =
    ValueError ustring
  | RuntimeError ustring
  | JSONDecodeError ustring
  | ValidationError ustring
  | ClientError ustring
  | FormatError ustring
  | OSError ustring

section \<open>Decision logic (decide_ui)\<close>

text \<open>The dict returned by \<open>decide_ui\<close>, one field per key.\<close>

record decision =
  d_code :: ustring
  d_badge :: ustring
  d_label :: ustring
  d_reason :: ustring
  d_next_step :: ustring

text \<open>The label literals start with a symbol outside ASCII, given by its code points.\<close>

definition label_maybe :: ustring where
  "label_maybe = [0x26A0, 0xFE0F] @ ustr '' Worth applying only if highly motivated''"

definition label_yes :: ustring where
  "label_yes = [0x2705] @ ustr '' Worth applying''"

definition label_no :: ustring where
  "label_no = [0x274C] @ ustr '' Not worth applying (for now)''"

definition reason_strong_gaps :: ustring where
  "reason_strong_gaps = ustr ''Strong score, but there are gaps that could affect screening. Clarify them with concrete evidence or projects.''"

definition reason_strong :: ustring where
  "reason_strong = ustr ''Strong alignment with key requirements; remaining gaps are not blocking.''"

definition reason_decent :: ustring where
  "reason_decent = ustr ''Decent alignment, but concrete evidence is needed to pass initial screening.''"

definition reason_low :: ustring where
  "reason_low = ustr ''Fit currently low.''"

definition reason_missing_must :: ustring where
  "reason_missing_must = ustr ''Some key requirements appear missing, with a high risk of early screening rejection.''"

definition reason_high_gap :: ustring where
  "reason_high_gap = ustr ''There are high-impact gaps that likely block the role for now.''"

definition next_strong_gaps :: ustring where
  "next_strong_gaps = ustr ''Apply only if you can clearly demonstrate or mitigate the highlighted gaps (examples, portfolio, interview framing).''"

definition next_strong :: ustring where
  "next_strong = ustr ''Apply and tailor your CV and LinkedIn profile to highlight your strengths.''"

definition next_decent :: ustring where
  "next_decent = ustr ''Apply only if you can clearly demonstrate the missing skills with real examples or projects.''"

definition next_low :: ustring where
  "next_low = ustr ''Focus on better-aligned roles or build targeted projects before applying.''"

definition missing_must :: "MatchItem list \<Rightarrow> MatchItem list" where
  "missing_must must = filter (\<lambda>m. status m = Missing) must"

definition has_missing_must :: "FitReport \<Rightarrow> bool" where
  "has_missing_must report = (length (missing_must (must_have_match report)) > 0)"

definition has_high_gap :: "FitReport \<Rightarrow> bool" where
  "has_high_gap report = list_ex (\<lambda>g. impact g = High) (gaps report)"

definition decide_ui :: "FitReport \<Rightarrow> decision" where
  "decide_ui report =
    (if fit_score report \<ge> 75 then
       (if has_missing_must report \<or> has_high_gap report then
          \<lparr>d_code = ustr ''MAYBE'', d_badge = ustr ''maybe'', d_label = label_maybe,
           d_reason = reason_strong_gaps, d_next_step = next_strong_gaps\<rparr>
        else
          \<lparr>d_code = ustr ''YES'', d_badge = ustr ''yes'', d_label = label_yes,
           d_reason = reason_strong, d_next_step = next_strong\<rparr>)
     else if fit_score report \<ge> 55 then
       \<lparr>d_code = ustr ''MAYBE'', d_badge = ustr ''maybe'', d_label = label_maybe,
        d_reason = reason_decent, d_next_step = next_decent\<rparr>
     else
       \<lparr>d_code = ustr ''NO'', d_badge = ustr ''no'', d_label = label_no,
        d_reason = (if has_missing_must report then reason_missing_must
                    else if has_high_gap report then reason_high_gap
                    else reason_low),
        d_next_step = next_low\<rparr>)"

section \<open>Text helpers (app/utility.py)\<close>

text \<open>
  The characters for which \<open>str.isspace\<close> holds: they are what \<open>str.strip()\<close> removes and
  what the regex class \<open>\s\<close> matches on a \<open>str\<close> pattern.
\<close>

definition is_space :: "nat \<Rightarrow> bool" where
  "is_space c \<longleftrightarrow>
     (9 \<le> c \<and> c \<le> 13) \<or> (28 \<le> c \<and> c \<le> 32) \<or> c = 0x85 \<or> c = 0xA0 \<or> c = 0x1680
     \<or> (0x2000 \<le> c \<and> c \<le> 0x200A) \<or> c = 0x2028 \<or> c = 0x2029 \<or> c = 0x202F
     \<or> c = 0x205F \<or> c = 0x3000"

text \<open>\<open>s.strip()\<close>\<close>

definition strip :: "ustring \<Rightarrow> ustring" where
  "strip s = rev (dropWhile is_space (rev (dropWhile is_space s)))"

text \<open>\<open>s.replace(old, new)\<close> for a one-character \<open>old\<close>\<close>

definition replace_char :: "nat \<Rightarrow> ustring \<Rightarrow> ustring \<Rightarrow> ustring" where
  "replace_char old new s = concat (map (\<lambda>c. if c = old then new else [c]) s)"

text \<open>\<open>html_escape\<close>: the argument may be \<open>None\<close> (\<open>s or ""\<close>).\<close>

definition html_escape :: "ustring option \<Rightarrow> ustring" where
  \<open>html_escape s =
     (let s = (case s of None \<Rightarrow> [] | Some t \<Rightarrow> t) in
      replace_char 0x27 (ustr ''&#39;'')
       (replace_char 0x22 (ustr ''&quot;'')
         (replace_char 0x3E (ustr ''&gt;'')
           (replace_char 0x3C (ustr ''&lt;'')
             (replace_char 0x26 (ustr ''&amp;'') s)))))\<close>

text \<open>\<open>sep.join(xs)\<close>\<close>

fun join :: "ustring \<Rightarrow> ustring list \<Rightarrow> ustring" where
  "join sep [] = []"
| "join sep [x] = x"
| "join sep (x # y # ys) = x @ sep @ join sep (y # ys)"

text \<open>\<open>str(n)\<close> for an integer\<close>

fun digits :: "nat \<Rightarrow> ustring" where
  "digits n = (if n < 10 then [48 + n] else digits (n div 10) @ [48 + n mod 10])"

definition str_int :: "int \<Rightarrow> ustring" where
  "str_int i = (if i < 0 then 0x2D # digits (nat (- i)) else digits (nat i))"

text \<open>\<open>str(report.confidence)\<close>: the literal itself\<close>

fun level_str :: "level \<Rightarrow> ustring" where
  "level_str High = ustr ''high''"
| "level_str Medium = ustr ''medium''"
| "level_str Low = ustr ''low''"

section \<open>Report rendering (render_report_html)\<close>

text \<open>
  \<open>_card(text, kind)\<close>, named \<open>card_html\<close> here; it is only called with the kinds
  \<open>"pos"\<close> and \<open>"neg"\<close>.
\<close>

datatype card_kind = Pos | Neg

definition card_html :: "ustring \<Rightarrow> card_kind \<Rightarrow> ustring" where
  \<open>card_html text kind =
     (let icon = (if kind = Pos then [0x2713] else ustr ''!'');
          k = (case kind of Pos \<Rightarrow> ustr ''pos'' | Neg \<Rightarrow> ustr ''neg'')
      in ustr ''<div class="qitem">''
         @ ustr ''  <div class="qicon '' @ k @ ustr ''">'' @ icon @ ustr ''</div>''
         @ ustr ''  <div class="qtext">'' @ html_escape (Some text) @ ustr ''</div>''
         @ ustr ''</div>'')\<close>

definition strengths :: "FitReport \<Rightarrow> ustring list" where
  "strengths report =
     (let must = must_have_match report; nice = nice_to_have_match report in
      take 3 (map requirement (filter (\<lambda>m. status m = Match) (must @ nice))
              @ map requirement (filter (\<lambda>m. status m = Partial) (must @ nice))))"

text \<open>
  The sort key \<open>{"high": 0, "medium": 1, "low": 2}.get(g.impact, 3)\<close>; the default 3 is for
  an impact outside the three literals, which the type of \<open>GapItem.impact\<close> excludes.
\<close>

fun impact_rank :: "level \<Rightarrow> nat" where
  "impact_rank High = 0"
| "impact_rank Medium = 1"
| "impact_rank Low = 2"

text \<open>\<open>sorted\<close> is stable, as \<open>sort_key\<close> is.\<close>

definition gaps_sorted :: "FitReport \<Rightarrow> GapItem list" where
  "gaps_sorted report = sort_key (\<lambda>g. impact_rank (impact g)) (gaps report)"

definition blockers :: "FitReport \<Rightarrow> ustring list" where
  "blockers report =
     (let b = take 3 (map gap (filter (\<lambda>g. impact g = High \<or> impact g = Medium)
                                 (gaps_sorted report)))
      in if b = []
         then take 3 (map requirement (filter (\<lambda>m. status m = Missing) (must_have_match report)))
         else b)"

definition strengths_cards :: "FitReport \<Rightarrow> ustring" where
  \<open>strengths_cards report =
     (let c = join [10] (map (\<lambda>x. card_html x Pos) (take 3 (strengths report)))
      in if c = [] then ustr ''<div class="qempty">Nessun punto a favore rilevante.</div>'' else c)\<close>

definition blockers_cards :: "FitReport \<Rightarrow> ustring" where
  \<open>blockers_cards report =
     (let c = join [10] (map (\<lambda>x. card_html x Neg) (take 3 (blockers report)))
      in if c = [] then ustr ''<div class="qempty">Nessun blocco principale.</div>'' else c)\<close>

definition score_bar_class :: "FitReport \<Rightarrow> ustring" where
  "score_bar_class report =
     (let score = max 0 (min 100 (fit_score report)) in
      if score \<le> 50 then ustr ''bar-red''
      else if score \<le> 75 then ustr ''bar-yellow''
      else ustr ''bar-green'')"

text \<open>
  A path is the list of its components: \<open>Path(p).name\<close> is the last one and
  \<open>Path(p).parent.name\<close> the one before it (the empty string when there is none).
\<close>

type_synonym path = "ustring list"

definition path_name :: "path \<Rightarrow> ustring" where
  "path_name p = (if p = [] then [] else last p)"

definition path_parent :: "path \<Rightarrow> path" where
  "path_parent p = butlast p"

text \<open>
  The value map built by \<open>render_report_html\<close>, in the order of the dict literal.
  \<open>json_pretty\<close> (\<open>json.dumps\<close> of the pydantic dump) is a library function and is
  taken as a parameter.
\<close>

definition render_values :: "(FitReport \<Rightarrow> ustring) \<Rightarrow> FitReport \<Rightarrow> path \<Rightarrow> ustring
    \<Rightarrow> (ustring \<times> ustring) list" where
  "render_values json_pretty report json_path job_title =
     (let d = decide_ui report;
          score = max 0 (min 100 (fit_score report))
      in
      [(ustr ''json_file_name'', html_escape (Some (path_name json_path))),
       (ustr ''decision_label'', html_escape (Some (d_label d))),
       (ustr ''decision_reason'', html_escape (Some (d_reason d))),
       (ustr ''decision_badge'', html_escape (Some (d_badge d))),
       (ustr ''decision_code'', html_escape (Some (d_code d))),
       (ustr ''fit_score'', html_escape (Some (str_int score))),
       (ustr ''confidence'', html_escape (Some (level_str (confidence report)))),
       (ustr ''next_step'', html_escape (Some (d_next_step d))),
       (ustr ''summary'', html_escape (Some (summary report))),
       (ustr ''final_note'', html_escape (Some (final_note report))),
       (ustr ''json_dump'', html_escape (Some (json_pretty report))),
       (ustr ''job_title'',
          html_escape (Some (if job_title = [] then ustr ''Posizione LinkedIn'' else job_title))),
       (ustr ''score_bar_class'', score_bar_class report),
       (ustr ''job_id'', html_escape (Some (path_name (path_parent json_path)))),
       (ustr ''strengths_cards'', strengths_cards report),
       (ustr ''blockers_cards'', blockers_cards report),
       (ustr ''strengths_count'',
          html_escape (Some (str_int (min (int (length (strengths report))) 3) @ ustr ''/3''))),
       (ustr ''blockers_count'',
          html_escape (Some (str_int (min (int (length (blockers report))) 3) @ ustr ''/3'')))])"

text \<open>
  The top blockers as the specification words them: the gaps sorted by impact, capped at
  three, and the missing must-have requirements only when there is no gap at all.
\<close>

definition blockers_spec :: "FitReport \<Rightarrow> ustring list" where
  "blockers_spec report =
     (if gaps report = []
      then take 3 (map requirement (filter (\<lambda>m. status m = Missing) (must_have_match report)))
      else take 3 (map gap (sort_key (\<lambda>g. impact_rank (impact g)) (gaps report))))"

text \<open>What \<open>html_escape\<close> does to one character, read off the five entities.\<close>

definition escape_char :: "nat \<Rightarrow> ustring" where
  \<open>escape_char c =
     (if c = 0x26 then ustr ''&amp;''
      else if c = 0x3C then ustr ''&lt;''
      else if c = 0x3E then ustr ''&gt;''
      else if c = 0x22 then ustr ''&quot;''
      else if c = 0x27 then ustr ''&#39;''
      else [c])\<close>

definition entities :: "ustring list" where
  "entities = [ustr ''&amp;'', ustr ''&lt;'', ustr ''&gt;'', ustr ''&quot;'', ustr ''&#39;'']"

text \<open>Every \<open>&\<close> of a string starts one of the five entities.\<close>

definition amp_ok :: "ustring \<Rightarrow> bool" where
  "amp_ok r \<longleftrightarrow> (\<forall>i<length r. r ! i = 0x26 \<longrightarrow>
      (\<exists>e \<in> set entities. take (length e) (drop i r) = e))"

text \<open>The three keys of the value map whose values are not results of \<open>html_escape\<close>.\<close>

definition markup_keys :: "ustring list" where
  "markup_keys = [ustr ''score_bar_class'', ustr ''strengths_cards'', ustr ''blockers_cards'']"

text \<open>
  The fixed markup that \<open>_card\<close> puts before and after the item text, and the three class
  names of the score bar.
\<close>

definition card_open :: "card_kind \<Rightarrow> ustring" where
  \<open>card_open kind =
     ustr ''<div class="qitem">  <div class="qicon ''
     @ (case kind of Pos \<Rightarrow> ustr ''pos">'' @ [0x2713] | Neg \<Rightarrow> ustr ''neg">!'')
     @ ustr ''</div>  <div class="qtext">''\<close>

definition card_close :: ustring where
  \<open>card_close = ustr ''</div></div>''\<close>

definition bar_classes :: "ustring list" where
  "bar_classes = [ustr ''bar-red'', ustr ''bar-yellow'', ustr ''bar-green'']"

section \<open>Section canonicalisation (SuggestionItem.normalize_section)\<close>

text \<open>
  The raw value handed to the validator: a string, or anything else (None, a number, a list,
  a dict), of which the validator only tests that it is not a string.
\<close>

datatype pyval = PStr ustring | PNonStr

definition ascii_lower :: "nat \<Rightarrow> nat" where
  "ascii_lower c = (if 65 \<le> c \<and> c \<le> 90 then c + 32 else c)"

text \<open>
  \<open>str.lower\<close>. On a string of ASCII characters it maps \<open>A-Z\<close> to \<open>a-z\<close> and nothing else.
  On other strings it follows the Unicode case tables of the interpreter, which are not part
  of the repository: they are the parameter \<open>ulower\<close>.
\<close>

definition lower :: "(ustring \<Rightarrow> ustring) \<Rightarrow> ustring \<Rightarrow> ustring" where
  "lower ulower s = (if list_all (\<lambda>c. c < 128) s then map ascii_lower s else ulower s)"

definition ALLOWED_SECTIONS :: "ustring list" where
  "ALLOWED_SECTIONS =
     [ustr ''summary'', ustr ''experience'', ustr ''skills'', ustr ''projects'', ustr ''other'']"

definition section_mapping :: "(ustring \<times> ustring) list" where
  "section_mapping =
     [(ustr ''education'', ustr ''other''),
      (ustr ''certifications'', ustr ''skills''),
      (ustr ''certification'', ustr ''skills''),
      (ustr ''training'', ustr ''skills''),
      (ustr ''courses'', ustr ''skills''),
      (ustr ''course'', ustr ''skills''),
      (ustr ''projects'', ustr ''projects''),
      (ustr ''project'', ustr ''projects''),
      (ustr ''work experience'', ustr ''experience''),
      (ustr ''experience'', ustr ''experience''),
      (ustr ''skills'', ustr ''skills''),
      (ustr ''summary'', ustr ''summary''),
      (ustr ''about'', ustr ''summary'')]"

text \<open>\<open>mapping.get(s, s)\<close>\<close>

definition mapping_get :: "ustring \<Rightarrow> ustring" where
  "mapping_get s = (case map_of section_mapping s of Some t \<Rightarrow> t | None \<Rightarrow> s)"

definition normalize_section :: "(ustring \<Rightarrow> ustring) \<Rightarrow> pyval \<Rightarrow> ustring" where
  "normalize_section ulower v =
     (case v of
        PNonStr \<Rightarrow> ustr ''other''
      | PStr t \<Rightarrow>
          (let s = lower ulower (strip t);
               s = mapping_get s
           in if s \<in> set ALLOWED_SECTIONS then s else ustr ''other''))"

text \<open>
  \<open>SuggestionItem(section=v, change=c, reason=r, priority=p)\<close>, the section being the raw
  value of the input or absent from it. \<open>section: str\<close> has no default: when the key is
  absent pydantic reports the field as missing and raises \<open>ValidationError\<close> without
  calling the validator (the message is shortened to the field and the error text). When the
  key is there, the validator runs on the raw value before the field is stored; it returns a
  string, which the check of the declared type \<open>str\<close> accepts. The other three fields are
  taken as validated.
\<close>

definition SuggestionItem_init ::
    "(ustring \<Rightarrow> ustring) \<Rightarrow> pyval option \<Rightarrow> ustring \<Rightarrow> ustring \<Rightarrow> level
     \<Rightarrow> error + SuggestionItem" where
  "SuggestionItem_init ulower raw c r p =
     (case raw of
        None \<Rightarrow> Inl (ValidationError (ustr ''section: Field required''))
      | Some v \<Rightarrow>
          Inr \<lparr>sg_section = normalize_section ulower v, sg_change = c, sg_reason = r,
               sg_priority = p\<rparr>)"

section \<open>Constructors with the default field values of the pydantic models\<close>

text \<open>\<open>MatchItem(requirement=r, status=s)\<close>: \<open>evidence\<close> defaults to the empty list.\<close>

definition match_item :: "ustring \<Rightarrow> match_status \<Rightarrow> MatchItem" where
  "match_item r s = \<lparr>requirement = r, status = s, evidence = []\<rparr>"

text \<open>\<open>GapItem(gap=g, impact=i)\<close>: \<open>how_to_fix\<close> defaults to the empty list.\<close>

definition gap_item :: "ustring \<Rightarrow> level \<Rightarrow> GapItem" where
  "gap_item g i = \<lparr>gap = g, impact = i, how_to_fix = []\<rparr>"

text \<open>
  \<open>FitReport(fit_score=n, confidence=c, must_have_match=must, gaps=gs)\<close>: the summary and the
  final note default to the empty string, the other lists to the empty list.
\<close>

definition fit_report :: "int \<Rightarrow> level \<Rightarrow> MatchItem list \<Rightarrow> GapItem list \<Rightarrow> FitReport" where
  "fit_report n c must gs =
     \<lparr>fit_score = n, confidence = c, summary = [], must_have_match = must,
      nice_to_have_match = [], gaps = gs, cv_suggestions = [], linkedin_suggestions = [],
      ats_keywords = [], final_note = []\<rparr>"

section \<open>JSON extraction and repair (web_helpers.py)\<close>

text \<open>
  The match of \<open>\{.*\}\<close> under \<open>re.DOTALL\<close> that starts at the head of the text: the dot takes
  every character, so the greedy star runs to the end of the text and backtracks to the
  last \<open>}\<close>.
\<close>

fun match_braces :: "ustring \<Rightarrow> ustring option" where
  "match_braces [] = None"
| "match_braces (c # cs) =
     (if c = 0x7B then
        (let body = rev (dropWhile (\<lambda>x. x \<noteq> 0x7D) (rev cs)) in
         if body = [] then None else Some (c # body))
      else None)"

text \<open>\<open>re.search\<close>: the match at the leftmost position that has one.\<close>

fun search_braces :: "ustring \<Rightarrow> ustring option" where
  "search_braces [] = None"
| "search_braces (c # cs) =
     (case match_braces (c # cs) of Some m \<Rightarrow> Some m | None \<Rightarrow> search_braces cs)"

text \<open>\<open>s.replace("\r", " ").replace("\n", " ")\<close>\<close>

definition crlf_to_space :: "ustring \<Rightarrow> ustring" where
  "crlf_to_space s = replace_char 0x0A [0x20] (replace_char 0x0D [0x20] s)"

text \<open>
  \<open>re.sub(r",\s*([}\]])", r"\1", s)\<close>, scanning from the left. At a comma the greedy \<open>\s*\<close>
  takes the whole whitespace run; the match succeeds when a closing bracket follows (a
  shorter run would be followed by whitespace), and the scan resumes after the bracket.
\<close>

function drop_trailing_commas :: "ustring \<Rightarrow> ustring" where
  "drop_trailing_commas [] = []"
| "drop_trailing_commas (c # cs) =
     (if c = 0x2C then
        (case dropWhile is_space cs of
           [] \<Rightarrow> c # drop_trailing_commas cs
         | d # ds \<Rightarrow>
             if d = 0x7D \<or> d = 0x5D then d # drop_trailing_commas ds
             else c # drop_trailing_commas cs)
      else c # drop_trailing_commas cs)"
  by pat_completeness auto
termination
proof (relation "measure length")
  fix c :: nat and cs d ds
  assume "dropWhile is_space cs = d # ds"
  then have "length (d # ds) \<le> length cs"
    by (metis length_dropWhile_le)
  then show "(ds, c # cs) \<in> measure length" by simp
qed simp_all

definition extract_json_safely :: "ustring \<Rightarrow> error + ustring" where
  "extract_json_safely text =
     (if text = [] then Inl (ValueError (ustr ''Empty LLM output''))
      else
        (case search_braces text of
           None \<Rightarrow> Inl (ValueError (ustr ''No JSON object found in LLM output''))
         | Some m \<Rightarrow> Inr (drop_trailing_commas (crlf_to_space (strip m)))))"

text \<open>A \<open>{\<close> with a \<open>}\<close> somewhere after it.\<close>

definition has_brace_span :: "ustring \<Rightarrow> bool" where
  "has_brace_span t \<longleftrightarrow> (\<exists>i j. i < j \<and> j < length t \<and> t ! i = 0x7B \<and> t ! j = 0x7D)"

text \<open>A comma followed, after whitespace only, by a closing bracket.\<close>

definition has_trailing_comma :: "ustring \<Rightarrow> bool" where
  "has_trailing_comma s \<longleftrightarrow>
     (\<exists>xs ws d ys. s = xs @ 0x2C # ws @ d # ys \<and> list_all is_space ws \<and> (d = 0x7D \<or> d = 0x5D))"

section \<open>Text normalisation (normalize_spaced_text)\<close>

text \<open>
  The character class of the two patterns: the ASCII letters and digits and the Latin-1
  letters U+00C0 to U+00D6, U+00D8 to U+00F6 and U+00F8 to U+00FF.
\<close>

definition is_alnum :: "nat \<Rightarrow> bool" where
  "is_alnum c \<longleftrightarrow>
     (0x41 \<le> c \<and> c \<le> 0x5A) \<or> (0x61 \<le> c \<and> c \<le> 0x7A)
     \<or> (0xC0 \<le> c \<and> c \<le> 0xD6) \<or> (0xD8 \<le> c \<and> c \<le> 0xF6) \<or> (0xF8 \<le> c \<and> c \<le> 0xFF)
     \<or> (0x30 \<le> c \<and> c \<le> 0x39)"

text \<open>
  \<open>re.findall\<close> of the pattern "class, \<open>\s+\<close>, class": the matches from left to right, each
  search starting where the last match ended. At a character of the class the greedy \<open>\s+\<close>
  takes the whole whitespace run, which must be non-empty and followed by a character of the
  class (a shorter run would be followed by whitespace).
\<close>

function findall_pairs :: "ustring \<Rightarrow> ustring list" where
  "findall_pairs [] = []"
| "findall_pairs (c # cs) =
     (if is_alnum c then
        (case dropWhile is_space cs of
           [] \<Rightarrow> findall_pairs cs
         | d # ds \<Rightarrow>
             if takeWhile is_space cs \<noteq> [] \<and> is_alnum d
             then (c # takeWhile is_space cs @ [d]) # findall_pairs ds
             else findall_pairs cs)
      else findall_pairs cs)"
  by pat_completeness auto
termination
proof (relation "measure length")
  fix c :: nat and cs d ds
  assume "dropWhile is_space cs = d # ds"
  then have "length (d # ds) \<le> length cs"
    by (metis length_dropWhile_le)
  then show "(ds, c # cs) \<in> measure length" by simp
qed simp_all

text \<open>
  \<open>re.sub\<close> of "(class), \<open>\s+\<close>, lookahead class" by the group: the match keeps its first
  character and drops the whitespace run; the character after the run is only looked at, so
  the scan resumes on it.
\<close>

function sub_pairs :: "ustring \<Rightarrow> ustring" where
  "sub_pairs [] = []"
| "sub_pairs (c # cs) =
     (if is_alnum c then
        (case dropWhile is_space cs of
           [] \<Rightarrow> c # sub_pairs cs
         | d # ds \<Rightarrow>
             if takeWhile is_space cs \<noteq> [] \<and> is_alnum d
             then c # sub_pairs (d # ds)
             else c # sub_pairs cs)
      else c # sub_pairs cs)"
  by pat_completeness auto
termination
proof (relation "measure length")
  fix c :: nat and cs d ds
  assume "dropWhile is_space cs = d # ds"
  then have "length (d # ds) \<le> length cs"
    by (metis length_dropWhile_le)
  then show "(d # ds, c # cs) \<in> measure length" by simp
qed simp_all

text \<open>
  \<open>re.sub(r"\s{2,}", " ", text)\<close>: a whitespace character followed by another starts a match,
  which takes the whole run and leaves one space; a lone whitespace character stays as it is.
\<close>

function sub_multispace :: "ustring \<Rightarrow> ustring" where
  "sub_multispace [] = []"
| "sub_multispace (c # cs) =
     (if is_space c \<and> takeWhile is_space cs \<noteq> []
      then 0x20 # sub_multispace (dropWhile is_space cs)
      else c # sub_multispace cs)"
  by pat_completeness auto
termination
  by (relation "measure length") (simp_all add: length_dropWhile_le less_Suc_eq_le)

definition normalize_spaced_text :: "ustring \<Rightarrow> ustring" where
  "normalize_spaced_text text =
     (let text = strip text in
      if text = [] then []
      else if length (findall_pairs text) < 25 then strip (sub_multispace text)
      else strip (sub_multispace (sub_pairs text)))"

text \<open>
  The collapse as the specification words it: only a run of a single whitespace character
  between two characters of the class is deleted.
\<close>

fun sub_pairs_single :: "ustring \<Rightarrow> ustring" where
  "sub_pairs_single (c # w # d # r) =
     (if is_alnum c \<and> is_space w \<and> is_alnum d then c # sub_pairs_single (d # r)
      else c # sub_pairs_single (w # d # r))"
| "sub_pairs_single cs = cs"

definition normalize_spaced_text_spec :: "ustring \<Rightarrow> ustring" where
  "normalize_spaced_text_spec text =
     (let text = strip text in
      if text = [] then []
      else if length (findall_pairs text) < 25 then strip (sub_multispace text)
      else strip (sub_multispace (sub_pairs_single text)))"

text \<open>
  The two substitutions told character by character. \<open>delete_between p\<close> goes through a text
  whose last character that is not whitespace was \<open>p\<close>: a whitespace character is deleted
  when the nearest characters that are not whitespace exist on both sides and belong to the
  class, whatever the length of the run it stands in.
\<close>

definition next_nonspace :: "ustring \<Rightarrow> nat option" where
  "next_nonspace cs = (case dropWhile is_space cs of [] \<Rightarrow> None | d # ds \<Rightarrow> Some d)"

definition opt_alnum :: "nat option \<Rightarrow> bool" where
  "opt_alnum p = (case p of None \<Rightarrow> False | Some c \<Rightarrow> is_alnum c)"

fun delete_between :: "nat option \<Rightarrow> ustring \<Rightarrow> ustring" where
  "delete_between p [] = []"
| "delete_between p (c # cs) =
     (if is_space c then
        (if opt_alnum p \<and> opt_alnum (next_nonspace cs) then delete_between p cs
         else c # delete_between p cs)
      else c # delete_between (Some c) cs)"

text \<open>
  \<open>squeeze prev\<close> goes through a text whose previous character was whitespace or not
  (\<open>prev\<close>): of a run of two or more whitespace characters the first becomes a space and the
  others go; a whitespace character with no whitespace next to it stays.
\<close>

fun squeeze :: "bool \<Rightarrow> ustring \<Rightarrow> ustring" where
  "squeeze prev [] = []"
| "squeeze prev (c # cs) =
     (if is_space c then
        (if prev then squeeze True cs
         else if cs \<noteq> [] \<and> is_space (hd cs) then 0x20 # squeeze True cs
         else c # squeeze True cs)
      else c # squeeze False cs)"

text \<open>A text of 52 letters, single-spaced but for the two spaces before the last letter.\<close>

definition spaced_example :: ustring where
  "spaced_example =
     ustr ''a b a b a b a b a b a b a b a b a b a b a b a b a b a b a b a b a b a b a b a b a b a b a b a b a b c  d''"

section \<open>Floating-point arithmetic of the scorer\<close>

text \<open>
  A Python \<open>float\<close> is an IEEE-754 binary64 number. A finite float is modelled by the
  rational number it denotes, and every operation returns the exact result rounded to the
  nearest number with a significand of 53 bits, ties going to the even significand (\<open>fl\<close>).
  The exponent is not bounded: overflow and subnormal numbers are not modelled, which is
  exact for magnitudes from \<open>2^-1022\<close> up to \<open>2^1024\<close>. In the scorer every quantity is 0 or
  lies between \<open>15 / n\<close> and 100, where \<open>n\<close> is the length of a list.
\<close>

text \<open>Rounding to the nearest integer, ties to even: also what \<open>round(x)\<close> returns.\<close>

definition round_half_even :: "rat \<Rightarrow> int" where
  "round_half_even x =
     (let f = \<lfloor>x\<rfloor>; d = x - of_int f in
      if d < 1 / 2 then f
      else if 1 / 2 < d then f + 1
      else if even f then f else f + 1)"

text \<open>The binary exponent of a positive rational: \<open>2 powi ilog2 x \<le> x < 2 powi (ilog2 x + 1)\<close>.\<close>

definition ilog2 :: "rat \<Rightarrow> int" where
  "ilog2 x =
     (if 1 \<le> x then int (floorlog 2 (nat \<lfloor>x\<rfloor>)) - 1
      else - int (floorlog 2 (nat (\<lceil>1 / x\<rceil> - 1))))"

definition fl :: "rat \<Rightarrow> rat" where
  "fl x =
     (if x = 0 then 0
      else (let u = 2 powi (ilog2 \<bar>x\<bar> - 52) in of_int (round_half_even (x / u)) * u))"

section \<open>Fit score (compute_fit_score)\<close>

text \<open>
  The loop of the inner function \<open>section\<close>: \<open>s += w\<close> for a match, \<open>s += 0.5 * w\<close> for a
  partial match, nothing for a missing item.
\<close>

fun section_loop :: "rat \<Rightarrow> rat \<Rightarrow> MatchItem list \<Rightarrow> rat" where
  "section_loop w s [] = s"
| "section_loop w s (it # items) =
     section_loop w
       (case status it of
          Match \<Rightarrow> fl (s + w)
        | Partial \<Rightarrow> fl (s + fl (1 / 2 * w))
        | Missing \<Rightarrow> s)
       items"

text \<open>
  The inner function \<open>section(items, total)\<close>. The division \<open>total / len(items)\<close> converts the
  length to a float first.
\<close>

definition section_score :: "MatchItem list \<Rightarrow> rat \<Rightarrow> rat" where
  "section_score items tot =
     (if items = [] then 0
      else (let w = fl (tot / fl (of_nat (length items))) in section_loop w 0 items))"

definition compute_fit_score_of :: "MatchItem list \<Rightarrow> MatchItem list \<Rightarrow> rat \<Rightarrow> rat \<Rightarrow> int" where
  "compute_fit_score_of must_have nice_to_have must_total nice_total =
     (let score = fl (section_score must_have must_total + section_score nice_to_have nice_total);
          score_i = round_half_even score
      in max 0 (min 100 score_i))"

text \<open>The call with the default weights \<open>must_total = 70.0\<close> and \<open>nice_total = 30.0\<close>.\<close>

definition compute_fit_score :: "MatchItem list \<Rightarrow> MatchItem list \<Rightarrow> int" where
  "compute_fit_score must_have nice_to_have = compute_fit_score_of must_have nice_to_have 70 30"

text \<open>
  The reference algorithm of the specification, in exact arithmetic: every item of a
  non-empty list weighs \<open>total / count\<close> and earns all of it for a match, half for a partial
  match and nothing when missing.
\<close>

fun credit :: "match_status \<Rightarrow> rat" where
  "credit Match = 1"
| "credit Partial = 1 / 2"
| "credit Missing = 0"

definition section_exact :: "MatchItem list \<Rightarrow> rat \<Rightarrow> rat" where
  "section_exact items tot =
     (if items = [] then 0
      else sum_list (map (\<lambda>it. tot / of_nat (length items) * credit (status it)) items))"

definition score_exact :: "MatchItem list \<Rightarrow> MatchItem list \<Rightarrow> rat" where
  "score_exact must_have nice_to_have = section_exact must_have 70 + section_exact nice_to_have 30"

text \<open>\<open>k\<close> is an integer nearest to \<open>x\<close>.\<close>

definition nearest_int :: "rat \<Rightarrow> int \<Rightarrow> bool" where
  "nearest_int x k \<longleftrightarrow> \<bar>of_int k - x\<bar> \<le> 1 / 2"

text \<open>The unit in the last place: the spacing of the floats around \<open>x\<close>.\<close>

definition ulp :: "rat \<Rightarrow> rat" where
  "ulp x = 2 powi (ilog2 \<bar>x\<bar> - 52)"

text \<open>The order of the statuses: missing, partial, match.\<close>

fun status_rank :: "match_status \<Rightarrow> nat" where
  "status_rank Missing = 0"
| "status_rank Partial = 1"
| "status_rank Match = 2"

text \<open>One pass of the loop body of \<open>section\<close>.\<close>

definition add_item :: "rat \<Rightarrow> rat \<Rightarrow> match_status \<Rightarrow> rat" where
  "add_item w s st =
     (case st of Match \<Rightarrow> fl (s + w) | Partial \<Rightarrow> fl (s + fl (1 / 2 * w)) | Missing \<Rightarrow> s)"

text \<open>The credits of a list, summed exactly.\<close>

definition credits :: "MatchItem list \<Rightarrow> rat" where
  "credits items = sum_list (map (\<lambda>it. credit (status it)) items)"

text \<open>The bounds on one rounding error: relative (\<open>eps\<close>) and, below 128, absolute (\<open>delta\<close>).\<close>

definition delta :: rat where
  "delta = 1 / 2 ^ 46"

definition eps :: rat where
  "eps = 1 / 2 ^ 53"

text \<open>
  Two long lists: 56108 matches among 63433 must-have items and 56214 matches among 63439
  nice-to-have items, the other items missing.
\<close>

definition long_must :: "MatchItem list" where
  "long_must = replicate 56108 (match_item [] Match) @ replicate 7325 (match_item [] Missing)"

definition long_nice :: "MatchItem list" where
  "long_nice = replicate 56214 (match_item [] Match) @ replicate 7225 (match_item [] Missing)"

section \<open>The two-stage pipeline (web_helpers.py)\<close>

text \<open>The stage-1 and stage-2 response models.\<close>

record FitCore =
  core_fit_score :: int
  core_confidence :: level
  core_must_have_match :: "MatchItem list"
  core_nice_to_have_match :: "MatchItem list"
  core_gaps :: "GapItem list"

record FitSuggestions =
  sugg_summary :: ustring
  sugg_cv_suggestions :: "SuggestionItem list"
  sugg_linkedin_suggestions :: "LinkedInSuggestionItem list"
  sugg_ats_keywords :: "ATSKeywordItem list"
  sugg_final_note :: ustring

text \<open>\<open>FitSuggestions()\<close>: every field at its default.\<close>

definition FitSuggestions_default :: FitSuggestions where
  "FitSuggestions_default =
     \<lparr>sugg_summary = [], sugg_cv_suggestions = [], sugg_linkedin_suggestions = [],
      sugg_ats_keywords = [], sugg_final_note = []\<rparr>"

text \<open>
  \<open>FitReport(fit_score=..., ...)\<close>: the constructor validates \<open>fit_score\<close> against
  \<open>Field(ge=0, le=100)\<close>; the other arguments are already values of their types.
\<close>

definition FitReport_init :: "int \<Rightarrow> level \<Rightarrow> ustring \<Rightarrow> MatchItem list \<Rightarrow> MatchItem list
    \<Rightarrow> GapItem list \<Rightarrow> SuggestionItem list \<Rightarrow> LinkedInSuggestionItem list
    \<Rightarrow> ATSKeywordItem list \<Rightarrow> ustring \<Rightarrow> error + FitReport" where
  "FitReport_init score conf summ must nice gs cvs lis ats fnote =
     (if 0 \<le> score \<and> score \<le> 100 then
        Inr \<lparr>fit_score = score, confidence = conf, summary = summ, must_have_match = must,
             nice_to_have_match = nice, gaps = gs, cv_suggestions = cvs,
             linkedin_suggestions = lis, ats_keywords = ats, final_note = fnote\<rparr>
      else Inl (ValidationError (ustr ''fit_score'')))"

text \<open>\<open>str(e)\<close>\<close>

fun err_str :: "error \<Rightarrow> ustring" where
  "err_str (ValueError m) = m"
| "err_str (RuntimeError m) = m"
| "err_str (JSONDecodeError m) = m"
| "err_str (ValidationError m) = m"
| "err_str (ClientError m) = m"
| "err_str (FormatError m) = m"
| "err_str (OSError m) = m"

text \<open>
  What the pipeline calls outside the repository: the environment variable with the API key,
  the LLM client (\<open>client.invoke(...).text\<close>, or the exception it raises), \<open>str.format\<close> on the
  two user templates, \<open>json.loads\<close>, the pydantic validation of the two response models, the
  JSON dumps of the stage-1 result and of the report, and the text of the report template.
  \<open>'j\<close> is the type of parsed JSON.
\<close>

record 'j env =
  api_key :: "ustring option"
  invoke :: "ustring \<Rightarrow> ustring \<Rightarrow> error + ustring"
  format_core :: "ustring \<Rightarrow> ustring \<Rightarrow> ustring \<Rightarrow> error + ustring"
  format_sugg :: "ustring \<Rightarrow> ustring \<Rightarrow> ustring \<Rightarrow> ustring \<Rightarrow> error + ustring"
  json_loads :: "ustring \<Rightarrow> error + 'j"
  validate_core :: "'j \<Rightarrow> error + FitCore"
  validate_sugg :: "'j \<Rightarrow> error + FitSuggestions"
  dump_core :: "FitCore \<Rightarrow> ustring"
  dump_report :: "FitReport \<Rightarrow> ustring"
  template_text :: ustring

text \<open>
  The files written so far, by path. Creating directories and writing files are modelled as
  always succeeding.
\<close>

type_synonym files = "path \<rightharpoonup> ustring"

definition write_text :: "files \<Rightarrow> path \<Rightarrow> ustring \<Rightarrow> files" where
  "write_text fs p content = fs(p \<mapsto> content)"

text \<open>The writes guarded by \<open>if debug_dir:\<close>.\<close>

definition debug_write :: "files \<Rightarrow> path option \<Rightarrow> string \<Rightarrow> ustring \<Rightarrow> files" where
  "debug_write fs debug_dir name content =
     (case debug_dir of None \<Rightarrow> fs | Some d \<Rightarrow> write_text fs (d @ [ustr name]) content)"

definition job_dir :: "path \<Rightarrow> ustring \<Rightarrow> path" where
  "job_dir project_root job_id = project_root @ [ustr ''jobs'', job_id]"

definition out_dir :: "path \<Rightarrow> ustring \<Rightarrow> path" where
  "out_dir project_root job_id = project_root @ [ustr ''outputs'', job_id]"


text \<open>\<open>build_client\<close>: fails without an API key; the client is the \<open>invoke\<close> of the environment.\<close>

definition build_client :: "'j env \<Rightarrow> error + unit" where
  "build_client env =
     (case api_key env of
        None \<Rightarrow> Inl (RuntimeError (ustr ''Missing OPENAI_API_KEY in environment (.env).''))
      | Some k \<Rightarrow>
          if k = [] then Inl (RuntimeError (ustr ''Missing OPENAI_API_KEY in environment (.env).''))
          else Inr ())"

definition analyze_fit_core :: "'j env \<Rightarrow> files \<Rightarrow> ustring \<Rightarrow> ustring \<Rightarrow> ustring \<Rightarrow> ustring
    \<Rightarrow> path option \<Rightarrow> (error + FitCore) \<times> files" where
  "analyze_fit_core env fs system_prompt user_template cv_text job_text debug_dir =
     (case format_core env user_template cv_text job_text of
        Inl e \<Rightarrow> (Inl e, fs)
      | Inr user_prompt \<Rightarrow>
          (let fs = debug_write fs debug_dir ''fit_core_system.txt'' system_prompt;
               fs = debug_write fs debug_dir ''fit_core_user_prompt.txt'' user_prompt
           in case invoke env system_prompt user_prompt of
                Inl e \<Rightarrow> (Inl e, fs)
              | Inr raw \<Rightarrow>
                  (let fs = debug_write fs debug_dir ''fit_core_raw.txt'' raw
                   in case extract_json_safely raw of
                        Inl e \<Rightarrow> (Inl e, fs)
                      | Inr json_text \<Rightarrow>
                          (let fs = debug_write fs debug_dir ''fit_core_json_extracted.txt''
                                      json_text
                           in case json_loads env json_text of
                                Inl e \<Rightarrow>
                                  (Inl e, debug_write fs debug_dir ''fit_core_parse_error.txt''
                                            (err_str e))
                              | Inr data \<Rightarrow>
                                  (case validate_core env data of
                                     Inl e \<Rightarrow>
                                       (Inl e, debug_write fs debug_dir
                                                 ''fit_core_validation_error.txt'' (err_str e))
                                   | Inr core \<Rightarrow> (Inr core, fs))))))"

definition analyze_fit_suggestions :: "'j env \<Rightarrow> files \<Rightarrow> ustring \<Rightarrow> ustring \<Rightarrow> ustring
    \<Rightarrow> ustring \<Rightarrow> FitCore \<Rightarrow> path option \<Rightarrow> (error + FitSuggestions) \<times> files" where
  "analyze_fit_suggestions env fs system_prompt user_template cv_text job_text fit_core debug_dir =
     (case format_sugg env user_template cv_text job_text (dump_core env fit_core) of
        Inl e \<Rightarrow> (Inl e, fs)
      | Inr user_prompt \<Rightarrow>
          (let fs = debug_write fs debug_dir ''fit_suggestions_system.txt'' system_prompt;
               fs = debug_write fs debug_dir ''fit_suggestions_user_prompt.txt'' user_prompt
           in case invoke env system_prompt user_prompt of
                Inl e \<Rightarrow> (Inl e, fs)
              | Inr raw \<Rightarrow>
                  (let fs = debug_write fs debug_dir ''fit_suggestions_raw.txt'' raw
                   in case extract_json_safely raw of
                        Inl e \<Rightarrow> (Inl e, fs)
                      | Inr json_text \<Rightarrow>
                          (let fs = debug_write fs debug_dir
                                      ''fit_suggestions_json_extracted.txt'' json_text
                           in case json_loads env json_text of
                                Inl e \<Rightarrow>
                                  (Inl e, debug_write fs debug_dir
                                            ''fit_suggestions_parse_error.txt'' (err_str e))
                              | Inr data \<Rightarrow>
                                  (case validate_sugg env data of
                                     Inl e \<Rightarrow>
                                       (Inl e, debug_write fs debug_dir
                                                 ''fit_suggestions_validation_error.txt''
                                                 (err_str e))
                                   | Inr sugg \<Rightarrow> (Inr sugg, fs))))))"

text \<open>
  \<open>s.replace(old, new)\<close>: the occurrences of \<open>old\<close> from the left, without overlap. For an
  empty \<open>old\<close> Python puts \<open>new\<close> before every character and at the end.
\<close>

fun replace_from :: "ustring \<Rightarrow> ustring \<Rightarrow> nat \<Rightarrow> ustring \<Rightarrow> ustring" where
  "replace_from old new skip [] = []"
| "replace_from old new skip (c # cs) =
     (if 0 < skip then replace_from old new (skip - 1) cs
      else if take (length old) (c # cs) = old
      then new @ replace_from old new (length old - 1) cs
      else c # replace_from old new 0 cs)"

definition str_replace :: "ustring \<Rightarrow> ustring \<Rightarrow> ustring \<Rightarrow> ustring" where
  "str_replace old new s =
     (if old = [] then new @ concat (map (\<lambda>c. c # new) s) else replace_from old new 0 s)"

text \<open>
  \<open>render_template_file\<close>, on the text of the template: one \<open>replace\<close> for each key of the
  value map, in its order.
\<close>

definition render_template_file :: "ustring \<Rightarrow> (ustring \<times> ustring) list \<Rightarrow> ustring" where
  "render_template_file tpl vals =
     foldl (\<lambda>t (k, v). str_replace (ustr ''{{'' @ k @ ustr ''}}'') v t) tpl vals"

definition render_report_html :: "'j env \<Rightarrow> FitReport \<Rightarrow> path \<Rightarrow> ustring \<Rightarrow> ustring" where
  "render_report_html env report json_path job_title =
     render_template_file (template_text env)
       (render_values (dump_report env) report json_path job_title)"

record job_paths =
  p_json_path :: path
  p_html_path :: path

text \<open>The block "Merge into final FitReport" of \<open>process_job\<close>.\<close>

definition merge_report :: "int \<Rightarrow> FitCore \<Rightarrow> FitSuggestions \<Rightarrow> error + FitReport" where
  "merge_report computed_score fit_core suggestions =
     FitReport_init computed_score (core_confidence fit_core) (sugg_summary suggestions)
       (core_must_have_match fit_core) (core_nice_to_have_match fit_core) (core_gaps fit_core)
       (sugg_cv_suggestions suggestions) (sugg_linkedin_suggestions suggestions)
       (sugg_ats_keywords suggestions) (sugg_final_note suggestions)"

text \<open>
  Step 2 of \<open>process_job\<close>: the suggestions call inside \<open>try\<close>, and the handler that logs the
  exception and falls back to the defaults.
\<close>

definition suggestions_or_default :: "'j env \<Rightarrow> files \<Rightarrow> ustring \<Rightarrow> ustring \<Rightarrow> ustring
    \<Rightarrow> ustring \<Rightarrow> FitCore \<Rightarrow> path \<Rightarrow> FitSuggestions \<times> files" where
  "suggestions_or_default env fs system_prompt user_template cv_txt job_txt fit_core llm_debug_dir =
     (case analyze_fit_suggestions env fs system_prompt user_template cv_txt job_txt fit_core
             (Some llm_debug_dir) of
        (Inr suggestions, fs) \<Rightarrow> (suggestions, fs)
      | (Inl e, fs) \<Rightarrow>
          (FitSuggestions_default,
           write_text fs (llm_debug_dir @ [ustr ''fit_suggestions_error.txt'']) (err_str e)))"

definition process_job :: "'j env \<Rightarrow> files \<Rightarrow> path \<Rightarrow> path \<Rightarrow> ustring \<Rightarrow> ustring \<Rightarrow> ustring
    \<Rightarrow> ustring \<Rightarrow> ustring \<Rightarrow> ustring \<Rightarrow> ustring \<Rightarrow> ustring \<Rightarrow> (error + job_paths) \<times> files" where
  "process_job env fs app_root templates_dir job_id system_prompt_core user_template_core
       system_prompt_sugg user_template_sugg cv_txt job_txt job_title =
     (case build_client env of
        Inl e \<Rightarrow> (Inl e, fs)
      | Inr client \<Rightarrow>
          (let llm_debug_dir = job_dir app_root job_id @ [ustr ''llm''];
               cv_txt = normalize_spaced_text cv_txt;
               job_txt = normalize_spaced_text job_txt
           in case analyze_fit_core env fs system_prompt_core user_template_core cv_txt job_txt
                     (Some llm_debug_dir) of
                (Inl e, fs) \<Rightarrow> (Inl e, fs)
              | (Inr fit_core, fs) \<Rightarrow>
                  (let computed_score =
                         compute_fit_score (core_must_have_match fit_core)
                           (core_nice_to_have_match fit_core);
                       (suggestions, fs) =
                         suggestions_or_default env fs system_prompt_sugg user_template_sugg
                           cv_txt job_txt fit_core llm_debug_dir
                   in case merge_report computed_score fit_core suggestions of
                        Inl e \<Rightarrow> (Inl e, fs)
                      | Inr final_report \<Rightarrow>
                          (let out = out_dir app_root job_id;
                               json_path = out @ [ustr ''fit_report.json''];
                               fs = write_text fs json_path (dump_report env final_report);
                               html = render_report_html env final_report json_path job_title;
                               html_path = out @ [ustr ''report.html''];
                               fs = write_text fs html_path html
                           in (Inr \<lparr>p_json_path = json_path, p_html_path = html_path\<rparr>, fs)))))"

section \<open>Job lifecycle (webapp.py)\<close>

datatype job_state = UPLOADED | RUNNING | DONE | ERROR

text \<open>An entry of \<open>JOB_STATUS\<close>: the status, the error and, on DONE, the two paths.\<close>

record job =
  j_status :: job_state
  j_error :: "ustring option"
  j_paths :: "job_paths option"



text \<open>
  The module constants of webapp.py that \<open>run_job\<close> hands to the pipeline: the two
  directories and the four prompt texts.
\<close>

record config =
  PROJECT_ROOT :: path
  TEMPLATES_DIR :: path
  SYSTEM_PROMPT_CORE :: ustring
  USER_TEMPLATE_CORE :: ustring
  SYSTEM_PROMPT_SUGG :: ustring
  USER_TEMPLATE_SUGG :: ustring


section \<open>An example run\<close>

text \<open>
  An environment in which the first call of the client answers with a JSON object wrapped in
  prose and the second call times out, and a stage-1 result whose own score is 99.
\<close>

definition example_core :: FitCore where
  "example_core =
     \<lparr>core_fit_score = 99, core_confidence = High,
      core_must_have_match = [match_item (ustr ''python'') Match],
      core_nice_to_have_match = [], core_gaps = [gap_item (ustr ''sql'') Low]\<rparr>"

definition example_env :: "ustring env" where
  \<open>example_env =
     \<lparr>api_key = Some (ustr ''key''),
      invoke = (\<lambda>system_prompt user_prompt.
                  if system_prompt = ustr ''core'' then Inr (ustr ''Sure: {"confidence":"high",}'')
                  else Inl (ClientError (ustr ''timeout''))),
      format_core = (\<lambda>t cv jb. Inr (t @ cv @ jb)),
      format_sugg = (\<lambda>t cv jb core. Inr (t @ cv @ jb @ core)),
      json_loads = Inr,
      validate_core = (\<lambda>j. Inr example_core),
      validate_sugg = (\<lambda>j. Inl (ValidationError (ustr ''summary''))),
      dump_core = (\<lambda>c. str_int (core_fit_score c)),
      dump_report = (\<lambda>r. str_int (fit_score r)),
      template_text = ustr ''score {{fit_score}}''\<rparr>\<close>

definition example_config :: config where
  "example_config =
     \<lparr>PROJECT_ROOT = [ustr ''srv''], TEMPLATES_DIR = [ustr ''srv'', ustr ''templates''],
      SYSTEM_PROMPT_CORE = ustr ''core'', USER_TEMPLATE_CORE = ustr ''cv and job: '',
      SYSTEM_PROMPT_SUGG = ustr ''sugg'', USER_TEMPLATE_SUGG = ustr ''cv, job and fit: ''\<rparr>"

section \<open>Decision mapping\<close>

lemma has_missing_must_iff:
  "has_missing_must report \<longleftrightarrow> (\<exists>m \<in> set (must_have_match report). status m = Missing)"
  by (auto simp: has_missing_must_def missing_must_def filter_empty_conv)

lemma has_high_gap_iff:
  "has_high_gap report \<longleftrightarrow> (\<exists>g \<in> set (gaps report). impact g = High)"
  by (simp add: has_high_gap_def list_ex_iff)

text \<open>
  C4. For every FitReport the decision mapper returns code YES when the score is at least 75,
  no must-have item is missing and no gap has impact high; MAYBE when the score is at least 75
  and some must-have is missing or some gap is high; MAYBE for every score from 55 up to 74
  whatever the match lists and gaps are; NO below 55, where the reason names the missing
  must-haves first, the high-impact gaps second and the generic low fit last.
\<close>

theorem decide_ui_rules:
  fixes report :: FitReport
  defines "miss \<equiv> (\<exists>m \<in> set (must_have_match report). status m = Missing)"
      and "high \<equiv> (\<exists>g \<in> set (gaps report). impact g = High)"
  shows "(fit_score report \<ge> 75 \<and> \<not> miss \<and> \<not> high \<longrightarrow> d_code (decide_ui report) = ustr ''YES'')
       \<and> (fit_score report \<ge> 75 \<and> (miss \<or> high) \<longrightarrow> d_code (decide_ui report) = ustr ''MAYBE'')
       \<and> (55 \<le> fit_score report \<and> fit_score report < 75 \<longrightarrow> d_code (decide_ui report) = ustr ''MAYBE'')
       \<and> (fit_score report < 55 \<longrightarrow>
            d_code (decide_ui report) = ustr ''NO''
          \<and> d_reason (decide_ui report) =
              (if miss then reason_missing_must else if high then reason_high_gap else reason_low))"
  unfolding miss_def high_def has_missing_must_iff [symmetric] has_high_gap_iff [symmetric]
  by (simp add: decide_ui_def)

theorem decide_ui_rules_witness:
  "d_code (decide_ui (fit_report 80 Medium [match_item (ustr ''python'') Match] [gap_item (ustr ''sql'') Low])) = ustr ''YES''
 \<and> d_code (decide_ui (fit_report 80 Medium [match_item (ustr ''python'') Missing] [])) = ustr ''MAYBE''
 \<and> d_code (decide_ui (fit_report 60 Medium [] [gap_item (ustr ''sql'') High])) = ustr ''MAYBE''
 \<and> d_code (decide_ui (fit_report 40 Medium [match_item (ustr ''python'') Missing] [gap_item (ustr ''sql'') High])) = ustr ''NO''
 \<and> d_reason (decide_ui (fit_report 40 Medium [match_item (ustr ''python'') Missing] [gap_item (ustr ''sql'') High])) = reason_missing_must"
  using decide_ui_rules [of "fit_report 80 Medium [match_item (ustr ''python'') Match] [gap_item (ustr ''sql'') Low]"]
        decide_ui_rules [of "fit_report 80 Medium [match_item (ustr ''python'') Missing] []"]
        decide_ui_rules [of "fit_report 60 Medium [] [gap_item (ustr ''sql'') High]"]
        decide_ui_rules [of "fit_report 40 Medium [match_item (ustr ''python'') Missing] [gap_item (ustr ''sql'') High]"]
  by (simp add: fit_report_def match_item_def gap_item_def)

section \<open>Top blockers\<close>

lemma sorted_rank_filter:
  "sorted (map (\<lambda>g. impact_rank (impact g)) gs) \<Longrightarrow>
   filter (\<lambda>g. impact g = High \<or> impact g = Medium) gs
   = filter (\<lambda>g. impact g = High) gs @ filter (\<lambda>g. impact g = Medium) gs"
proof (induction gs)
  case Nil then show ?case by simp
next
  case (Cons g gs)
  from Cons.prems have le: "\<And>h. h \<in> set gs \<Longrightarrow> impact_rank (impact g) \<le> impact_rank (impact h)"
    by simp
  from Cons have IH: "filter (\<lambda>g. impact g = High \<or> impact g = Medium) gs
   = filter (\<lambda>g. impact g = High) gs @ filter (\<lambda>g. impact g = Medium) gs"
    by simp
  show ?case
  proof (cases "impact g")
    case High
    with IH show ?thesis by simp
  next
    case Medium
    have "impact h \<noteq> High" if "h \<in> set gs" for h
      using le [OF that] Medium by (cases "impact h") simp_all
    then have "filter (\<lambda>g. impact g = High) gs = []"
      by (simp add: filter_empty_conv)
    with IH Medium show ?thesis by simp
  next
    case Low
    have "impact h = Low" if "h \<in> set gs" for h
      using le [OF that] Low by (cases "impact h") simp_all
    then have "filter (\<lambda>g. impact g = High \<or> impact g = Medium) gs = []"
      "filter (\<lambda>g. impact g = High) gs = []" "filter (\<lambda>g. impact g = Medium) gs = []"
      by (simp_all add: filter_empty_conv)
    with Low show ?thesis by simp
  qed
qed

lemma gaps_sorted_filter:
  "filter (\<lambda>g. impact g = High \<or> impact g = Medium) (gaps_sorted report)
   = filter (\<lambda>g. impact g = High) (gaps report) @ filter (\<lambda>g. impact g = Medium) (gaps report)"
proof -
  let ?k = "\<lambda>g. impact_rank (impact g)"
  have hi: "(\<lambda>g. impact g = High) = (\<lambda>g. ?k g = 0)"
    by (rule ext) (case_tac "impact g"; simp)
  have me: "(\<lambda>g. impact g = Medium) = (\<lambda>g. ?k g = 1)"
    by (rule ext) (case_tac "impact g"; simp)
  have "filter (\<lambda>g. impact g = High \<or> impact g = Medium) (gaps_sorted report)
      = filter (\<lambda>g. impact g = High) (gaps_sorted report) @ filter (\<lambda>g. impact g = Medium) (gaps_sorted report)"
    unfolding gaps_sorted_def by (rule sorted_rank_filter) simp
  also have "filter (\<lambda>g. impact g = High) (gaps_sorted report) = filter (\<lambda>g. impact g = High) (gaps report)"
    unfolding gaps_sorted_def hi by (rule sort_key_stable)
  also have "filter (\<lambda>g. impact g = Medium) (gaps_sorted report) = filter (\<lambda>g. impact g = Medium) (gaps report)"
    unfolding gaps_sorted_def me by (rule sort_key_stable)
  finally show ?thesis .
qed

text \<open>
  C8 (as amended). The top blockers are the names of the gaps of impact high, in the order of
  the report, followed by those of impact medium, capped at three; gaps of impact low are
  never listed. The names of the missing must-have requirements (capped at three) stand in
  exactly when no gap has impact high or medium.
\<close>

theorem blockers_high_medium:
  "blockers report =
     (let b = take 3 (map gap (filter (\<lambda>g. impact g = High) (gaps report))
                      @ map gap (filter (\<lambda>g. impact g = Medium) (gaps report)))
      in if b = []
         then take 3 (map requirement (filter (\<lambda>m. status m = Missing) (must_have_match report)))
         else b)"
  by (simp add: blockers_def gaps_sorted_filter)

theorem blockers_spec_counterexample:
  "blockers (fit_report 40 Medium [match_item (ustr ''sql'') Missing] [gap_item (ustr ''travel'') Low])
   \<noteq> blockers_spec (fit_report 40 Medium [match_item (ustr ''sql'') Missing] [gap_item (ustr ''travel'') Low])"
  by (simp add: blockers_def blockers_spec_def gaps_sorted_def fit_report_def match_item_def gap_item_def ustr_def)

theorem blockers_high_medium_witness:
  "blockers (fit_report 40 Medium [match_item (ustr ''sql'') Missing]
      [gap_item (ustr ''travel'') Low, gap_item (ustr ''docker'') Medium, gap_item (ustr ''aws'') High])
   = [ustr ''aws'', ustr ''docker'']
 \<and> blockers (fit_report 40 Medium [match_item (ustr ''sql'') Missing] [gap_item (ustr ''travel'') Low])
   = [ustr ''sql'']"
  using blockers_high_medium [of "fit_report 40 Medium [match_item (ustr ''sql'') Missing]
      [gap_item (ustr ''travel'') Low, gap_item (ustr ''docker'') Medium, gap_item (ustr ''aws'') High]"]
    blockers_high_medium [of "fit_report 40 Medium [match_item (ustr ''sql'') Missing] [gap_item (ustr ''travel'') Low]"]
  by (simp add: fit_report_def match_item_def gap_item_def)

section \<open>HTML escaping\<close>

lemma replace_char_append:
  "replace_char c r (xs @ ys) = replace_char c r xs @ replace_char c r ys"
  by (simp add: replace_char_def)

lemma replace_char_Nil: "replace_char c r [] = []"
  by (simp add: replace_char_def)

lemma html_escape_single: "html_escape (Some [c]) = escape_char c"
  by (simp add: html_escape_def replace_char_def escape_char_def ustr_def)

lemma html_escape_append:
  "html_escape (Some (xs @ ys)) = html_escape (Some xs) @ html_escape (Some ys)"
  by (simp add: html_escape_def replace_char_append)

lemma html_escape_Some: "html_escape (Some s) = concat (map escape_char s)"
proof (induction s)
  case Nil
  show ?case by (simp add: html_escape_def replace_char_Nil)
next
  case (Cons c cs)
  have "html_escape (Some (c # cs)) = html_escape (Some ([c] @ cs))" by simp
  also have "\<dots> = escape_char c @ html_escape (Some cs)"
    by (simp only: html_escape_append html_escape_single)
  finally show ?case using Cons by simp
qed

lemma html_escape_None: "html_escape None = []"
  by (simp add: html_escape_def replace_char_Nil)

lemma escape_char_raw:
  "x \<in> set (escape_char c) \<Longrightarrow> x \<noteq> 0x3C \<and> x \<noteq> 0x3E \<and> x \<noteq> 0x22 \<and> x \<noteq> 0x27"
  by (auto simp: escape_char_def ustr_def split: if_splits)

lemma html_escape_raw:
  "x \<in> set (html_escape s) \<Longrightarrow> x \<noteq> 0x3C \<and> x \<noteq> 0x3E \<and> x \<noteq> 0x22 \<and> x \<noteq> 0x27"
proof (cases s)
  case None
  then show "x \<in> set (html_escape s) \<Longrightarrow> ?thesis" by (simp add: html_escape_None)
next
  case (Some t)
  assume "x \<in> set (html_escape s)"
  with Some obtain c where "x \<in> set (escape_char c)"
    by (auto simp: html_escape_Some)
  then show ?thesis by (rule escape_char_raw)
qed

lemma escape_char_cases:
  "(escape_char c = [c] \<and> c \<noteq> 0x26) \<or> escape_char c \<in> set entities"
  by (simp add: escape_char_def entities_def)

lemma entity_amp_first:
  "e \<in> set entities \<Longrightarrow> i < length e \<Longrightarrow> e ! i = 0x26 \<Longrightarrow> i = 0"
  by (auto simp: entities_def ustr_def nth_Cons' split: if_splits)

lemma entity_nonempty: "e \<in> set entities \<Longrightarrow> e \<noteq> []"
  by (auto simp: entities_def ustr_def)

lemma amp_ok_step:
  assumes "amp_ok rest"
  shows "amp_ok (escape_char c @ rest)"
  unfolding amp_ok_def
proof (intro allI impI)
  fix i
  let ?p = "escape_char c"
  assume i: "i < length (?p @ rest)" and amp: "(?p @ rest) ! i = 0x26"
  show "\<exists>e \<in> set entities. take (length e) (drop i (?p @ rest)) = e"
  proof (cases "i < length ?p")
    case True
    from escape_char_cases [of c] show ?thesis
    proof
      assume "escape_char c = [c] \<and> c \<noteq> 0x26"
      with True amp show ?thesis by simp
    next
      assume e: "escape_char c \<in> set entities"
      from True amp have "?p ! i = 0x26" by (simp add: nth_append)
      with e True have "i = 0" by (rule entity_amp_first)
      then have "take (length ?p) (drop i (?p @ rest)) = ?p" by simp
      with e show ?thesis by blast
    qed
  next
    case False
    then have ge: "length ?p \<le> i" by simp
    with i have "i - length ?p < length rest" by simp
    moreover from False amp have "rest ! (i - length ?p) = 0x26" by (simp add: nth_append)
    ultimately obtain e where "e \<in> set entities"
      "take (length e) (drop (i - length ?p) rest) = e"
      using assms unfolding amp_ok_def by blast
    moreover from ge have "drop i (?p @ rest) = drop (i - length ?p) rest" by simp
    ultimately show ?thesis by auto
  qed
qed

lemma amp_ok_concat: "amp_ok (concat (map escape_char s))"
proof (induction s)
  case Nil
  show ?case by (simp add: amp_ok_def)
next
  case (Cons c cs)
  then show ?case by (simp add: amp_ok_step)
qed

lemma html_escape_amp: "amp_ok (html_escape s)"
  by (cases s) (simp_all add: html_escape_None html_escape_Some amp_ok_concat, simp add: amp_ok_def)

lemma render_values_escaped:
  "(k, v) \<in> set (render_values json_pretty report json_path job_title) \<Longrightarrow>
   k \<notin> set markup_keys \<Longrightarrow> \<exists>t. v = html_escape (Some t)"
  unfolding render_values_def Let_def markup_keys_def
  by (elim UnE | simp only: set_simps insert_iff empty_iff Pair_inject | blast)+

lemma card_html_markup: "card_html x kind = card_open kind @ html_escape (Some x) @ card_close"
  by (cases kind) (simp_all add: card_html_def card_open_def card_close_def ustr_def)

lemma card_html_nonempty: "card_html x kind \<noteq> []"
  by (simp add: card_html_def ustr_def)

lemma join_empty:
  "\<forall>x \<in> set xs. x \<noteq> [] \<Longrightarrow> join sep xs = [] \<longleftrightarrow> xs = []"
  by (induction sep xs rule: join.induct) simp_all

lemma join_cards_empty: "join [10] (map (\<lambda>x. card_html x kind) xs) = [] \<longleftrightarrow> xs = []"
  using join_empty [of "map (\<lambda>x. card_html x kind) xs" "[10]"]
  by (simp add: card_html_nonempty)

lemma strengths_take: "take 3 (strengths report) = strengths report"
  by (simp only: strengths_def Let_def take_take min.idem)

lemma blockers_take: "take 3 (blockers report) = blockers report"
  by (simp only: blockers_def Let_def if_distrib [where f = "take 3"] take_take min.idem)

lemma strengths_cards_markup:
  \<open>strengths_cards report =
     (if strengths report = []
      then ustr ''<div class="qempty">Nessun punto a favore rilevante.</div>''
      else join [10] (map (\<lambda>x. card_open Pos @ html_escape (Some x) @ card_close)
                        (strengths report)))\<close>
  unfolding strengths_cards_def Let_def strengths_take join_cards_empty
  by (simp only: card_html_markup)

lemma blockers_cards_markup:
  \<open>blockers_cards report =
     (if blockers report = []
      then ustr ''<div class="qempty">Nessun blocco principale.</div>''
      else join [10] (map (\<lambda>x. card_open Neg @ html_escape (Some x) @ card_close)
                        (blockers report)))\<close>
  unfolding blockers_cards_def Let_def blockers_take join_cards_empty
  by (simp only: card_html_markup)

lemma score_bar_class_fixed: "score_bar_class report \<in> set bar_classes"
  by (simp add: score_bar_class_def bar_classes_def Let_def)

lemma render_values_markup:
  assumes "(k, v) \<in> set (render_values json_pretty report json_path job_title)"
  shows "(k = ustr ''score_bar_class'' \<longrightarrow> v = score_bar_class report)
       \<and> (k = ustr ''strengths_cards'' \<longrightarrow> v = strengths_cards report)
       \<and> (k = ustr ''blockers_cards'' \<longrightarrow> v = blockers_cards report)"
proof -
  from assms have "(k, v) \<in> set (render_values json_pretty report json_path job_title)" .
  then show ?thesis
    unfolding render_values_def Let_def
    apply (simp only: set_simps insert_iff empty_iff Pair_inject)
    apply (elim disjE conjE FalseE)
    apply (simp_all add: ustr_def)
    done
qed

text \<open>
  C10 (as amended). For every input string, None counting as the empty string, html_escape
  is the character-wise substitution of the five entities: replacing \<open>&\<close> first keeps the
  later replacements from touching an entity, so nothing is escaped twice. The result holds
  no raw \<open><\<close>, \<open>>\<close>, double or single quote, and each of its \<open>&\<close> starts one of the five
  entities. In the value map of the rendered report every value is a result of html_escape
  except those of score_bar_class, strengths_cards and blockers_cards. The value of
  score_bar_class is one of the three fixed class names. The values of strengths_cards and
  blockers_cards are a fixed placeholder when there is no item, and otherwise the cards of the
  items joined by newlines, a card being fixed markup around the result of html_escape on the
  item text.
\<close>

theorem html_escape_entities:
  \<open>html_escape s = concat (map escape_char (case s of None \<Rightarrow> [] | Some t \<Rightarrow> t))
   \<and> 0x3C \<notin> set (html_escape s) \<and> 0x3E \<notin> set (html_escape s)
   \<and> 0x22 \<notin> set (html_escape s) \<and> 0x27 \<notin> set (html_escape s)
   \<and> (\<forall>i<length (html_escape s). html_escape s ! i = 0x26 \<longrightarrow>
        (\<exists>e \<in> set entities. take (length e) (drop i (html_escape s)) = e))
   \<and> (\<forall>(k, v) \<in> set (render_values json_pretty report json_path job_title).
        k \<notin> set markup_keys \<longrightarrow> (\<exists>t. v = html_escape (Some t)))
   \<and> card_html x kind = card_open kind @ html_escape (Some x) @ card_close
   \<and> (\<forall>(k, v) \<in> set (render_values json_pretty report json_path job_title).
        (k = ustr ''score_bar_class'' \<longrightarrow> v \<in> set bar_classes)
        \<and> (k = ustr ''strengths_cards'' \<longrightarrow> v =
             (if strengths report = []
              then ustr ''<div class="qempty">Nessun punto a favore rilevante.</div>''
              else join [10] (map (\<lambda>x. card_open Pos @ html_escape (Some x) @ card_close)
                                (strengths report))))
        \<and> (k = ustr ''blockers_cards'' \<longrightarrow> v =
             (if blockers report = []
              then ustr ''<div class="qempty">Nessun blocco principale.</div>''
              else join [10] (map (\<lambda>x. card_open Neg @ html_escape (Some x) @ card_close)
                                (blockers report)))))\<close>
proof (intro conjI)
  show "html_escape s = concat (map escape_char (case s of None \<Rightarrow> [] | Some t \<Rightarrow> t))"
    by (cases s) (simp_all add: html_escape_None html_escape_Some)
  show "0x3C \<notin> set (html_escape s)" using html_escape_raw [of "0x3C" s] by blast
  show "0x3E \<notin> set (html_escape s)" using html_escape_raw [of "0x3E" s] by blast
  show "0x22 \<notin> set (html_escape s)" using html_escape_raw [of "0x22" s] by blast
  show "0x27 \<notin> set (html_escape s)" using html_escape_raw [of "0x27" s] by blast
  show "\<forall>i<length (html_escape s). html_escape s ! i = 0x26 \<longrightarrow>
        (\<exists>e \<in> set entities. take (length e) (drop i (html_escape s)) = e)"
    using html_escape_amp [of s] unfolding amp_ok_def .
  show "\<forall>(k, v) \<in> set (render_values json_pretty report json_path job_title).
        k \<notin> set markup_keys \<longrightarrow> (\<exists>t. v = html_escape (Some t))"
    using render_values_escaped by blast
  show "card_html x kind = card_open kind @ html_escape (Some x) @ card_close"
    by (rule card_html_markup)
  show \<open>\<forall>(k, v) \<in> set (render_values json_pretty report json_path job_title).
        (k = ustr ''score_bar_class'' \<longrightarrow> v \<in> set bar_classes)
        \<and> (k = ustr ''strengths_cards'' \<longrightarrow> v =
             (if strengths report = []
              then ustr ''<div class="qempty">Nessun punto a favore rilevante.</div>''
              else join [10] (map (\<lambda>x. card_open Pos @ html_escape (Some x) @ card_close)
                                (strengths report))))
        \<and> (k = ustr ''blockers_cards'' \<longrightarrow> v =
             (if blockers report = []
              then ustr ''<div class="qempty">Nessun blocco principale.</div>''
              else join [10] (map (\<lambda>x. card_open Neg @ html_escape (Some x) @ card_close)
                                (blockers report))))\<close>
  proof (intro ballI, clarify, intro conjI impI)
    fix k v
    assume m: "(k, v) \<in> set (render_values json_pretty report json_path job_title)"
    note mk = render_values_markup [OF m]
    {
      assume "k = ustr ''score_bar_class''"
      with mk show "v \<in> set bar_classes" by (simp add: score_bar_class_fixed)
    next
      assume "k = ustr ''strengths_cards''"
      with mk have "v = strengths_cards report" by blast
      then show \<open>v = (if strengths report = []
              then ustr ''<div class="qempty">Nessun punto a favore rilevante.</div>''
              else join [10] (map (\<lambda>x. card_open Pos @ html_escape (Some x) @ card_close)
                                (strengths report)))\<close>
        by (simp only: strengths_cards_markup)
    next
      assume "k = ustr ''blockers_cards''"
      with mk have "v = blockers_cards report" by blast
      then show \<open>v = (if blockers report = []
              then ustr ''<div class="qempty">Nessun blocco principale.</div>''
              else join [10] (map (\<lambda>x. card_open Neg @ html_escape (Some x) @ card_close)
                                (blockers report)))\<close>
        by (simp only: blockers_cards_markup)
    }
  qed
qed

theorem html_escape_entities_witness:
  "html_escape (Some (ustr ''a<b&c'')) = ustr ''a&lt;b&amp;c''
   \<and> (\<exists>e \<in> set entities. take (length e) (drop 6 (html_escape (Some (ustr ''a<b&c'')))) = e)
   \<and> (\<exists>t. html_escape (Some (ustr ''Q&A'')) = html_escape (Some t))
   \<and> (ustr ''summary'', html_escape (Some (ustr ''Q&A'')))
       \<in> set (render_values (\<lambda>r. []) ((fit_report 0 Low [] [])\<lparr>summary := ustr ''Q&A''\<rparr>) [] [])
   \<and> (ustr ''strengths_cards'', card_open Pos @ ustr ''a&lt;b&amp;c'' @ card_close)
       \<in> set (render_values (\<lambda>r. []) (fit_report 0 Low [match_item (ustr ''a<b&c'') Match] []) [] [])
   \<and> (ustr ''score_bar_class'', ustr ''bar-red'')
       \<in> set (render_values (\<lambda>r. []) (fit_report 0 Low [match_item (ustr ''a<b&c'') Match] []) [] [])
   \<and> ustr ''bar-red'' \<in> set bar_classes"
proof -
  let ?s = "Some (ustr ''a<b&c'')"
  let ?r = "(fit_report 0 Low [] [])\<lparr>summary := ustr ''Q&A''\<rparr>"
  let ?r2 = "fit_report 0 Low [match_item (ustr ''a<b&c'') Match] []"
  note th = html_escape_entities [where s = ?s and json_pretty = "\<lambda>r. []" and report = ?r
      and json_path = "[]" and job_title = "[]" and x = "[]" and kind = Pos]
  note th2 = html_escape_entities [where s = ?s and json_pretty = "\<lambda>r. []" and report = ?r2
      and json_path = "[]" and job_title = "[]" and x = "[]" and kind = Pos]
  have 1: "html_escape ?s = ustr ''a&lt;b&amp;c''"
    using th by (simp add: escape_char_def ustr_def)
  have len: "6 < length (html_escape ?s)" "html_escape ?s ! 6 = 0x26"
    unfolding 1 by (simp_all add: ustr_def)
  from th have "\<forall>i<length (html_escape ?s). html_escape ?s ! i = 0x26 \<longrightarrow>
        (\<exists>e \<in> set entities. take (length e) (drop i (html_escape ?s)) = e)"
    by blast
  with len have 2: "\<exists>e \<in> set entities. take (length e) (drop 6 (html_escape ?s)) = e"
    by blast
  have mem: "(ustr ''summary'', html_escape (Some (ustr ''Q&A''))) \<in> set (render_values (\<lambda>r. []) ?r [] [])"
    by (simp add: render_values_def Let_def fit_report_def)
  have key: "ustr ''summary'' \<notin> set markup_keys"
    by (simp add: markup_keys_def ustr_def)
  from th have "\<forall>(k, v) \<in> set (render_values (\<lambda>r. []) ?r [] []).
        k \<notin> set markup_keys \<longrightarrow> (\<exists>t. v = html_escape (Some t))"
    by blast
  with mem key have 3: "\<exists>t. html_escape (Some (ustr ''Q&A'')) = html_escape (Some t)"
    by blast
  have st: "strengths ?r2 = [ustr ''a<b&c'']"
    by (simp add: strengths_def Let_def fit_report_def match_item_def)
  have mem2: "(ustr ''strengths_cards'', strengths_cards ?r2) \<in> set (render_values (\<lambda>r. []) ?r2 [] [])"
    by (simp add: render_values_def Let_def)
  have mem3: "(ustr ''score_bar_class'', score_bar_class ?r2) \<in> set (render_values (\<lambda>r. []) ?r2 [] [])"
    by (simp add: render_values_def Let_def)
  note all2 = th2 [THEN conjunct2, THEN conjunct2, THEN conjunct2, THEN conjunct2,
      THEN conjunct2, THEN conjunct2, THEN conjunct2, THEN conjunct2]
  note b2 = all2 [THEN bspec, OF mem2, unfolded prod.case]
  from b2 [THEN conjunct2, THEN conjunct1, THEN mp, OF refl]
  have \<open>strengths_cards ?r2 =
      (if strengths ?r2 = []
       then ustr ''<div class="qempty">Nessun punto a favore rilevante.</div>''
       else join [10] (map (\<lambda>x. card_open Pos @ html_escape (Some x) @ card_close) (strengths ?r2)))\<close> .
  then have "strengths_cards ?r2 = card_open Pos @ html_escape ?s @ card_close"
    by (simp only: st) simp
  then have sc: "strengths_cards ?r2 = card_open Pos @ ustr ''a&lt;b&amp;c'' @ card_close"
    by (simp only: 1)
  from mem2 have 4: "(ustr ''strengths_cards'', card_open Pos @ ustr ''a&lt;b&amp;c'' @ card_close)
       \<in> set (render_values (\<lambda>r. []) ?r2 [] [])"
    by (simp only: sc)
  have bar: "score_bar_class ?r2 = ustr ''bar-red''"
    by (simp add: score_bar_class_def fit_report_def)
  from mem3 have 5: "(ustr ''score_bar_class'', ustr ''bar-red'') \<in> set (render_values (\<lambda>r. []) ?r2 [] [])"
    by (simp only: bar)
  note b3 = all2 [THEN bspec, OF 5, unfolded prod.case]
  from b3 [THEN conjunct1, THEN mp, OF refl]
  have 6: "ustr ''bar-red'' \<in> set bar_classes" .
  show ?thesis by (intro conjI 1 2 3 mem 4 5 6)
qed

theorem render_values_counterexample:
  \<open>\<not> (\<forall>(k, v) \<in> set (render_values (\<lambda>r. []) (fit_report 0 Low [] []) [] []).
        \<exists>t. v = html_escape t)\<close>
proof
  let ?v = \<open>ustr ''<div class="qempty">Nessun punto a favore rilevante.</div>''\<close>
  assume a: "\<forall>(k, v) \<in> set (render_values (\<lambda>r. []) (fit_report 0 Low [] []) [] []).
        \<exists>t. v = html_escape t"
  have "(ustr ''strengths_cards'', ?v) \<in> set (render_values (\<lambda>r. []) (fit_report 0 Low [] []) [] [])"
    by (simp add: render_values_def Let_def strengths_cards_def strengths_def fit_report_def)
  with a obtain t where t: "?v = html_escape t" by blast
  have "0x3C \<in> set ?v" by (simp add: ustr_def)
  with t have "0x3C \<in> set (html_escape t)" by simp
  then show False using html_escape_raw [of "0x3C" t] by blast
qed

section \<open>Section canonicalisation\<close>

lemma other_allowed: "ustr ''other'' \<in> set ALLOWED_SECTIONS"
  by (simp add: ALLOWED_SECTIONS_def)

lemma normalize_section_in: "normalize_section ulower v \<in> set ALLOWED_SECTIONS"
  by (cases v) (simp_all add: normalize_section_def Let_def other_allowed)

lemma mapping_values_allowed:
  "map_of section_mapping s = Some r \<Longrightarrow> r \<in> set ALLOWED_SECTIONS"
  by (auto simp: section_mapping_def ALLOWED_SECTIONS_def split: if_splits)

lemma normalize_section_PStr:
  "normalize_section ulower (PStr t) =
     (let s = lower ulower (strip t) in
      case map_of section_mapping s of
        Some r \<Rightarrow> r
      | None \<Rightarrow> if s \<in> set ALLOWED_SECTIONS then s else ustr ''other'')"
  by (auto simp: normalize_section_def mapping_get_def Let_def
      dest: mapping_values_allowed split: option.splits)

lemma normalize_section_ascii:
  assumes "list_all (\<lambda>c. c < 128) (strip t)"
    and "map_of section_mapping (map ascii_lower (strip t)) = Some r"
  shows "normalize_section ulower (PStr t) = r"
  using assms by (simp add: normalize_section_PStr lower_def)

text \<open>
  C6 (as amended). For every constructed SuggestionItem the section is one of summary,
  experience, skills, projects, other: it is the raw value supplied for the field, put
  through the validator. A string is stripped and lower-cased, looked up in the synonym table
  and kept only when the outcome is an allowed section; every other string, and every value
  that is not a string, becomes other, so a raw string outside the allowed set is never
  retained. In particular every casing of "certifications", with any surrounding whitespace,
  gives skills, and every casing of "education" gives other. Construction never fails on a
  section value that is supplied, of whatever type. When the section key is absent,
  construction fails with a validation error (the field is required and has no default) and
  no item is constructed.
\<close>

theorem normalize_section_canonical:
  "SuggestionItem_init ulower (Some v) c why p =
       Inr \<lparr>sg_section = normalize_section ulower v, sg_change = c, sg_reason = why,
            sg_priority = p\<rparr>
   \<and> (\<exists>m. SuggestionItem_init ulower None c why p = Inl (ValidationError m))
   \<and> (SuggestionItem_init ulower raw c why p = Inr item \<longrightarrow>
        sg_section item \<in> set ALLOWED_SECTIONS
        \<and> (\<exists>v'. raw = Some v' \<and> sg_section item = normalize_section ulower v')
        \<and> (\<forall>t'. raw = Some (PStr t') \<and> t' \<notin> set ALLOWED_SECTIONS \<longrightarrow> sg_section item \<noteq> t'))
   \<and> normalize_section ulower v \<in> set ALLOWED_SECTIONS
   \<and> set ALLOWED_SECTIONS
       = {ustr ''summary'', ustr ''experience'', ustr ''skills'', ustr ''projects'', ustr ''other''}
   \<and> normalize_section ulower PNonStr = ustr ''other''
   \<and> normalize_section ulower (PStr t) =
       (let s = lower ulower (strip t) in
        case map_of section_mapping s of
          Some r \<Rightarrow> r
        | None \<Rightarrow> if s \<in> set ALLOWED_SECTIONS then s else ustr ''other'')
   \<and> (list_all (\<lambda>c. c < 128) (strip t) \<and> map ascii_lower (strip t) = ustr ''certifications''
        \<longrightarrow> normalize_section ulower (PStr t) = ustr ''skills'')
   \<and> (list_all (\<lambda>c. c < 128) (strip t) \<and> map ascii_lower (strip t) = ustr ''education''
        \<longrightarrow> normalize_section ulower (PStr t) = ustr ''other'')"
proof (intro conjI impI)
  show "SuggestionItem_init ulower (Some v) c why p =
       Inr \<lparr>sg_section = normalize_section ulower v, sg_change = c, sg_reason = why,
            sg_priority = p\<rparr>"
    by (simp add: SuggestionItem_init_def)
  show "\<exists>m. SuggestionItem_init ulower None c why p = Inl (ValidationError m)"
    by (simp add: SuggestionItem_init_def)
  show "normalize_section ulower v \<in> set ALLOWED_SECTIONS" by (rule normalize_section_in)
  show "set ALLOWED_SECTIONS
       = {ustr ''summary'', ustr ''experience'', ustr ''skills'', ustr ''projects'', ustr ''other''}"
    by (simp add: ALLOWED_SECTIONS_def)
  show "normalize_section ulower PNonStr = ustr ''other''"
    by (simp add: normalize_section_def)
  show "normalize_section ulower (PStr t) =
       (let s = lower ulower (strip t) in
        case map_of section_mapping s of
          Some r \<Rightarrow> r
        | None \<Rightarrow> if s \<in> set ALLOWED_SECTIONS then s else ustr ''other'')"
    by (rule normalize_section_PStr)
next
  assume a: "list_all (\<lambda>c. c < 128) (strip t) \<and> map ascii_lower (strip t) = ustr ''certifications''"
  have "map_of section_mapping (ustr ''certifications'') = Some (ustr ''skills'')"
    by (simp add: section_mapping_def ustr_def)
  with a show "normalize_section ulower (PStr t) = ustr ''skills''"
    by (simp add: normalize_section_ascii)
next
  assume a: "list_all (\<lambda>c. c < 128) (strip t) \<and> map ascii_lower (strip t) = ustr ''education''"
  have "map_of section_mapping (ustr ''education'') = Some (ustr ''other'')"
    by (simp add: section_mapping_def ustr_def)
  with a show "normalize_section ulower (PStr t) = ustr ''other''"
    by (simp add: normalize_section_ascii)
next
  assume a: "SuggestionItem_init ulower raw c why p = Inr item"
  then obtain v' where raw: "raw = Some v'"
    by (cases raw) (simp_all add: SuggestionItem_init_def)
  with a have sec: "sg_section item = normalize_section ulower v'"
    by (auto simp: SuggestionItem_init_def)
  then have mem: "sg_section item \<in> set ALLOWED_SECTIONS"
    by (simp add: normalize_section_in)
  from mem show "sg_section item \<in> set ALLOWED_SECTIONS" .
  from raw sec show "\<exists>v'. raw = Some v' \<and> sg_section item = normalize_section ulower v'"
    by blast
  from mem show "\<forall>t'. raw = Some (PStr t') \<and> t' \<notin> set ALLOWED_SECTIONS \<longrightarrow> sg_section item \<noteq> t'"
    by blast
qed

theorem normalize_section_canonical_witness:
  "SuggestionItem_init (\<lambda>s. s) (Some (PStr (ustr ''  CertiFications ''))) (ustr ''c'') (ustr ''r'') Medium
     = Inr \<lparr>sg_section = ustr ''skills'', sg_change = ustr ''c'', sg_reason = ustr ''r'',
            sg_priority = Medium\<rparr>
   \<and> normalize_section (\<lambda>s. s) (PStr (ustr ''EDUCATION'')) = ustr ''other''
   \<and> normalize_section (\<lambda>s. s) (PStr (ustr ''Random Thing'')) = ustr ''other''
   \<and> normalize_section (\<lambda>s. s) (PStr (ustr ''Skills'')) = ustr ''skills''
   \<and> sg_section \<lparr>sg_section = ustr ''skills'', sg_change = ustr ''c'', sg_reason = ustr ''r'',
            sg_priority = Medium\<rparr> \<noteq> ustr ''  CertiFications ''"
proof -
  let ?c = "ustr ''  CertiFications ''"
  let ?item = "\<lparr>sg_section = ustr ''skills'', sg_change = ustr ''c'', sg_reason = ustr ''r'',
            sg_priority = Medium\<rparr>"
  note th = normalize_section_canonical
    [where ulower = "\<lambda>s. s" and c = "ustr ''c''" and why = "ustr ''r''" and p = Medium
       and raw = "Some (PStr ?c)" and item = ?item]
  have "list_all (\<lambda>c. c < 128) (strip ?c) \<and> map ascii_lower (strip ?c) = ustr ''certifications''"
    by (simp add: strip_def ustr_def is_space_def ascii_lower_def)
  with th [where t = ?c and v = PNonStr]
  have 1: "normalize_section (\<lambda>s. s) (PStr ?c) = ustr ''skills''"
    by blast
  from th [where t = ?c and v = "PStr ?c", THEN conjunct1]
  have 0: "SuggestionItem_init (\<lambda>s. s) (Some (PStr ?c)) (ustr ''c'') (ustr ''r'') Medium = Inr ?item"
    by (simp only: 1)
  have nm: "?c \<notin> set ALLOWED_SECTIONS"
    by (simp add: ALLOWED_SECTIONS_def ustr_def)
  from th [where t = ?c and v = PNonStr, THEN conjunct2, THEN conjunct2, THEN conjunct1,
      rule_format, OF 0]
  have "\<forall>t'. Some (PStr ?c) = Some (PStr t') \<and> t' \<notin> set ALLOWED_SECTIONS \<longrightarrow> sg_section ?item \<noteq> t'"
    by blast
  with nm have 5: "sg_section ?item \<noteq> ?c" by blast
  have "list_all (\<lambda>c. c < 128) (strip (ustr ''EDUCATION''))
      \<and> map ascii_lower (strip (ustr ''EDUCATION'')) = ustr ''education''"
    by (simp add: strip_def ustr_def is_space_def ascii_lower_def)
  with th [where t = "ustr ''EDUCATION''" and v = PNonStr]
  have 2: "normalize_section (\<lambda>s. s) (PStr (ustr ''EDUCATION'')) = ustr ''other''"
    by blast
  have l3: "lower (\<lambda>s. s) (strip (ustr ''Random Thing'')) = ustr ''random thing''"
    by (simp add: strip_def ustr_def is_space_def ascii_lower_def lower_def)
  have m3: "map_of section_mapping (ustr ''random thing'') = None"
    "ustr ''random thing'' \<notin> set ALLOWED_SECTIONS"
    by (simp_all add: section_mapping_def ALLOWED_SECTIONS_def ustr_def)
  from th [where t = "ustr ''Random Thing''" and v = PNonStr]
  have "normalize_section (\<lambda>s. s) (PStr (ustr ''Random Thing'')) =
       (let s = lower (\<lambda>s. s) (strip (ustr ''Random Thing'')) in
        case map_of section_mapping s of
          Some r \<Rightarrow> r
        | None \<Rightarrow> if s \<in> set ALLOWED_SECTIONS then s else ustr ''other'')"
    by blast
  then have 3: "normalize_section (\<lambda>s. s) (PStr (ustr ''Random Thing'')) = ustr ''other''"
    by (simp only: l3 Let_def m3 option.case if_False)
  have l4: "lower (\<lambda>s. s) (strip (ustr ''Skills'')) = ustr ''skills''"
    by (simp add: strip_def ustr_def is_space_def ascii_lower_def lower_def)
  have m4: "map_of section_mapping (ustr ''skills'') = Some (ustr ''skills'')"
    by (simp add: section_mapping_def ustr_def)
  from th [where t = "ustr ''Skills''" and v = PNonStr]
  have "normalize_section (\<lambda>s. s) (PStr (ustr ''Skills'')) =
       (let s = lower (\<lambda>s. s) (strip (ustr ''Skills'')) in
        case map_of section_mapping s of
          Some r \<Rightarrow> r
        | None \<Rightarrow> if s \<in> set ALLOWED_SECTIONS then s else ustr ''other'')"
    by blast
  then have 4: "normalize_section (\<lambda>s. s) (PStr (ustr ''Skills'')) = ustr ''skills''"
    by (simp only: l4 Let_def m4 option.case)
  from 0 2 3 4 5 show ?thesis by blast
qed

theorem SuggestionItem_init_counterexample:
  "SuggestionItem_init (\<lambda>s. s) None (ustr ''c'') (ustr ''r'') Medium
     = Inl (ValidationError (ustr ''section: Field required''))
   \<and> \<not> (\<forall>raw. \<exists>item. SuggestionItem_init (\<lambda>s. s) raw (ustr ''c'') (ustr ''r'') Medium = Inr item)"
proof
  show 1: "SuggestionItem_init (\<lambda>s. s) None (ustr ''c'') (ustr ''r'') Medium
     = Inl (ValidationError (ustr ''section: Field required''))"
    by (simp add: SuggestionItem_init_def)
  show "\<not> (\<forall>raw. \<exists>item. SuggestionItem_init (\<lambda>s. s) raw (ustr ''c'') (ustr ''r'') Medium = Inr item)"
  proof
    assume "\<forall>raw. \<exists>item. SuggestionItem_init (\<lambda>s. s) raw (ustr ''c'') (ustr ''r'') Medium = Inr item"
    then obtain item where
      "SuggestionItem_init (\<lambda>s. s) None (ustr ''c'') (ustr ''r'') Medium = Inr item" by blast
    with 1 show False by simp
  qed
qed

section \<open>JSON extraction\<close>

lemma search_braces_skip: "0x7B \<notin> set pre \<Longrightarrow> search_braces (pre @ s) = search_braces s"
  by (induction pre) auto

lemma match_braces_span:
  assumes "0x7D \<notin> set post"
  shows "match_braces (0x7B # body @ 0x7D # post) = Some (0x7B # body @ [0x7D])"
proof -
  have "dropWhile (\<lambda>x. x \<noteq> 0x7D) (rev post @ 0x7D # rev body) = 0x7D # rev body"
    using assms by (subst dropWhile_append2) auto
  then show ?thesis by simp
qed

lemma search_braces_span:
  assumes "0x7B \<notin> set pre" "0x7D \<notin> set post"
  shows "search_braces (pre @ 0x7B # body @ 0x7D # post) = Some (0x7B # body @ [0x7D])"
proof -
  have "search_braces (pre @ 0x7B # body @ 0x7D # post) = search_braces (0x7B # body @ 0x7D # post)"
    using assms(1) by (rule search_braces_skip)
  also have "\<dots> = Some (0x7B # body @ [0x7D])"
    using match_braces_span [OF assms(2), of body] by simp
  finally show ?thesis .
qed

lemma brace_span_split:
  assumes "has_brace_span t"
  shows "\<exists>pre body post. t = pre @ 0x7B # body @ 0x7D # post \<and> 0x7B \<notin> set pre \<and> 0x7D \<notin> set post"
proof -
  from assms obtain i j where ij: "i < j" "j < length t" "t ! i = 0x7B" "t ! j = 0x7D"
    unfolding has_brace_span_def by blast
  then have "0x7B \<in> set t" by (metis nth_mem order_less_trans)
  then obtain pre rest where t: "t = pre @ 0x7B # rest" and pre: "0x7B \<notin> set pre"
    by (meson split_list_first)
  have "length pre \<le> i"
  proof (rule ccontr)
    assume "\<not> length pre \<le> i"
    then have "i < length pre" by simp
    then have "t ! i \<in> set pre" by (simp add: t nth_append)
    with ij(3) pre show False by simp
  qed
  with ij have j: "length pre < j" by simp
  then have "t ! j = rest ! (j - length pre - 1)"
    by (simp add: t nth_append nth_Cons')
  moreover from j ij(2) have "j - length pre - 1 < length rest" by (simp add: t)
  ultimately have "0x7D \<in> set rest" using ij(4) by (metis nth_mem)
  then obtain body post where "rest = body @ 0x7D # post" "0x7D \<notin> set post"
    by (meson split_list_last)
  with t pre show ?thesis by blast
qed

lemma split_brace_span:
  assumes "t = pre @ 0x7B # body @ 0x7D # post"
  shows "has_brace_span t"
  unfolding has_brace_span_def
proof (intro exI conjI)
  show "length pre < length pre + length body + 1" by simp
  show "length pre + length body + 1 < length t" using assms by simp
  show "t ! length pre = 0x7B" using assms by simp
  show "t ! (length pre + length body + 1) = 0x7D"
    using assms by (simp add: nth_append)
qed

lemma match_braces_Some:
  assumes "match_braces t = Some m"
  shows "\<exists>body post. t = 0x7B # body @ 0x7D # post"
proof (cases t)
  case Nil
  with assms show ?thesis by simp
next
  case (Cons c cs)
  with assms have c: "c = 0x7B" and ne: "dropWhile (\<lambda>x. x \<noteq> 0x7D) (rev cs) \<noteq> []"
    by (auto simp: Let_def split: if_splits)
  from ne have "\<exists>x \<in> set (rev cs). \<not> x \<noteq> 0x7D" by (simp add: dropWhile_eq_Nil_conv)
  then have "0x7D \<in> set cs" by auto
  then obtain body post where "cs = body @ 0x7D # post" by (meson split_list)
  with Cons c show ?thesis by blast
qed

lemma search_braces_Some: "search_braces t = Some m \<Longrightarrow> has_brace_span t"
proof (induction t)
  case Nil
  then show ?case by simp
next
  case (Cons c cs)
  show ?case
  proof (cases "match_braces (c # cs)")
    case (Some m')
    from match_braces_Some [OF Some]
    obtain body post where "c # cs = 0x7B # body @ 0x7D # post" by blast
    then have "c # cs = [] @ 0x7B # body @ 0x7D # post" by simp
    then show ?thesis by (rule split_brace_span)
  next
    case None
    with Cons.prems have "search_braces cs = Some m" by simp
    then have "has_brace_span cs" by (rule Cons.IH)
    then obtain i j where "i < j" "j < length cs" "cs ! i = 0x7B" "cs ! j = 0x7D"
      unfolding has_brace_span_def by blast
    then have "Suc i < Suc j \<and> Suc j < length (c # cs) \<and> (c # cs) ! Suc i = 0x7B \<and> (c # cs) ! Suc j = 0x7D"
      by simp
    then show ?thesis unfolding has_brace_span_def by blast
  qed
qed

lemma search_braces_None_iff: "search_braces t = None \<longleftrightarrow> \<not> has_brace_span t"
proof
  assume n: "search_braces t = None"
  show "\<not> has_brace_span t"
  proof
    assume "has_brace_span t"
    then obtain pre body post where "t = pre @ 0x7B # body @ 0x7D # post"
      "0x7B \<notin> set pre" "0x7D \<notin> set post"
      using brace_span_split by blast
    with n show False by (simp add: search_braces_span)
  qed
next
  assume "\<not> has_brace_span t"
  then show "search_braces t = None"
    using search_braces_Some by (cases "search_braces t") auto
qed

lemma strip_span: "strip (0x7B # body @ [0x7D]) = 0x7B # body @ [0x7D]"
  by (simp add: strip_def is_space_def)

lemma replace_char_single: "replace_char a [b] s = map (\<lambda>c. if c = a then b else c) s"
  by (induction s) (simp_all add: replace_char_def)

lemma crlf_to_space_map:
  "crlf_to_space s = map (\<lambda>c. if c = 0x0D \<or> c = 0x0A then 0x20 else c) s"
  by (simp add: crlf_to_space_def replace_char_single)

lemma comma_not_space: "\<not> is_space 0x2C" by (simp add: is_space_def)
lemma closer_not_space: "d = 0x7D \<or> d = 0x5D \<Longrightarrow> \<not> is_space d" by (auto simp: is_space_def)

lemma dropWhile_space_all:
  "list_all is_space ws \<Longrightarrow> dropWhile is_space (ws @ ys) = dropWhile is_space ys"
  by (simp add: list_all_iff)

lemma dropWhile_space_append:
  assumes "dropWhile is_space cs = d # ds"
  shows "dropWhile is_space (cs @ ys) = d # ds @ ys"
proof -
  from assms have "d \<in> set cs" by (metis list.set_intros(1) set_dropWhileD)
  moreover from assms have "\<not> is_space d" by (metis hd_dropWhile list.sel(1) list.distinct(1))
  ultimately have "dropWhile is_space (cs @ ys) = dropWhile is_space cs @ ys"
    by (rule dropWhile_append1)
  with assms show ?thesis by simp
qed

lemma drop_trailing_commas_append:
  "drop_trailing_commas (xs @ 0x2C # rest)
   = drop_trailing_commas xs @ drop_trailing_commas (0x2C # rest)"
proof (induction xs rule: drop_trailing_commas.induct)
  case 1
  show ?case by simp
next
  case (2 c cs)
  show ?case
  proof (cases "c = 0x2C")
    case False
    with 2 show ?thesis by simp
  next
    case True
    show ?thesis
    proof (cases "dropWhile is_space cs")
      case Nil
      then have "list_all is_space cs" by (simp add: dropWhile_eq_Nil_conv list_all_iff)
      then have "dropWhile is_space (cs @ 0x2C # rest) = 0x2C # rest"
        by (simp add: dropWhile_space_all comma_not_space)
      moreover have "drop_trailing_commas (cs @ 0x2C # rest)
          = drop_trailing_commas cs @ drop_trailing_commas (0x2C # rest)"
        using 2(1) [OF True Nil] .
      ultimately show ?thesis using True by (simp add: Nil)
    next
      case (Cons d ds)
      then have dw: "dropWhile is_space (cs @ 0x2C # rest) = d # ds @ 0x2C # rest"
        by (rule dropWhile_space_append)
      show ?thesis
      proof (cases "d = 0x7D \<or> d = 0x5D")
        case closer: True
        have "drop_trailing_commas (ds @ 0x2C # rest)
          = drop_trailing_commas ds @ drop_trailing_commas (0x2C # rest)"
          using 2(2) [OF True Cons closer] .
        then show ?thesis using True closer by (simp add: Cons dw)
      next
        case other: False
        have "drop_trailing_commas (cs @ 0x2C # rest)
          = drop_trailing_commas cs @ drop_trailing_commas (0x2C # rest)"
          using 2(3) [OF True Cons other] .
        then show ?thesis using True other by (simp add: Cons dw)
      qed
    qed
  qed
qed

lemma drop_trailing_commas_comma:
  assumes "list_all is_space ws" "d = 0x7D \<or> d = 0x5D"
  shows "drop_trailing_commas (0x2C # ws @ d # ys) = d # drop_trailing_commas ys"
proof -
  have "dropWhile is_space (ws @ d # ys) = d # ys"
    using assms by (simp add: dropWhile_space_all closer_not_space)
  then show ?thesis using assms(2) by simp
qed

lemma drop_trailing_commas_removes:
  assumes "list_all is_space ws" "d = 0x7D \<or> d = 0x5D"
  shows "drop_trailing_commas (xs @ 0x2C # ws @ d # ys)
         = drop_trailing_commas xs @ d # drop_trailing_commas ys"
  by (simp only: drop_trailing_commas_append drop_trailing_commas_comma [OF assms])

lemma has_trailing_comma_Cons: "has_trailing_comma cs \<Longrightarrow> has_trailing_comma (c # cs)"
  unfolding has_trailing_comma_def
  by (metis append_Cons)

lemma drop_trailing_commas_id: "\<not> has_trailing_comma s \<Longrightarrow> drop_trailing_commas s = s"
proof (induction s)
  case Nil
  show ?case by simp
next
  case (Cons c cs)
  then have IH: "drop_trailing_commas cs = cs" using has_trailing_comma_Cons by blast
  show ?case
  proof (cases "c = 0x2C")
    case False
    with IH show ?thesis by simp
  next
    case True
    show ?thesis
    proof (cases "dropWhile is_space cs")
      case Nil
      with True IH show ?thesis by (simp add: Nil)
    next
      case (Cons d ds)
      have "\<not> (d = 0x7D \<or> d = 0x5D)"
      proof
        assume d: "d = 0x7D \<or> d = 0x5D"
        have "cs = takeWhile is_space cs @ d # ds"
          using Cons by (metis takeWhile_dropWhile_id)
        then have "c # cs = [] @ 0x2C # takeWhile is_space cs @ d # ds" using True by simp
        moreover have "list_all is_space (takeWhile is_space cs)"
          by (simp add: list_all_iff) (meson set_takeWhileD)
        ultimately have "has_trailing_comma (c # cs)"
          unfolding has_trailing_comma_def using d by blast
        with Cons.prems show False by simp
      qed
      with True IH show ?thesis by (simp add: Cons)
    qed
  qed
qed

text \<open>
  C5. The extractor fails exactly when the text is empty or has no \<open>{\<close> with a \<open>}\<close> after
  it. Otherwise it takes the span from the first \<open>{\<close> to the last \<open>}\<close>, whatever stands
  between them (nothing checks that the span is JSON), turns every carriage return and
  newline into a space, and removes every comma that is followed, after whitespace only, by
  \<open>}\<close> or \<open>]\<close>, together with that whitespace; a text with no such comma is left as it
  is. The text \<open>Here is the result: {"a":1,} done\<close> gives \<open>{"a":1}\<close>.
\<close>

theorem extract_json_safely_span:
  \<open>((\<exists>e. extract_json_safely t = Inl e) \<longleftrightarrow>
      t = [] \<or> \<not> (\<exists>i j. i < j \<and> j < length t \<and> t ! i = 0x7B \<and> t ! j = 0x7D))
   \<and> (t = pre @ 0x7B # body @ 0x7D # post \<and> 0x7B \<notin> set pre \<and> 0x7D \<notin> set post \<longrightarrow>
        extract_json_safely t =
          Inr (drop_trailing_commas
                 (map (\<lambda>c. if c = 0x0D \<or> c = 0x0A then 0x20 else c) (0x7B # body @ [0x7D]))))
   \<and> (list_all is_space ws \<and> (d = 0x7D \<or> d = 0x5D) \<longrightarrow>
        drop_trailing_commas (xs @ 0x2C # ws @ d # ys)
          = drop_trailing_commas xs @ d # drop_trailing_commas ys)
   \<and> (\<not> has_trailing_comma s \<longrightarrow> drop_trailing_commas s = s)
   \<and> extract_json_safely (ustr ''Here is the result: {"a":1,} done'') = Inr (ustr ''{"a":1}'')\<close>
proof (intro conjI impI)
  show "(\<exists>e. extract_json_safely t = Inl e) \<longleftrightarrow>
      t = [] \<or> \<not> (\<exists>i j. i < j \<and> j < length t \<and> t ! i = 0x7B \<and> t ! j = 0x7D)"
    using search_braces_None_iff [of t]
    by (auto simp: extract_json_safely_def has_brace_span_def split: option.splits)
next
  assume a: "t = pre @ 0x7B # body @ 0x7D # post \<and> 0x7B \<notin> set pre \<and> 0x7D \<notin> set post"
  then have "search_braces t = Some (0x7B # body @ [0x7D])"
    by (simp add: search_braces_span)
  moreover from a have "t \<noteq> []" by simp
  ultimately show "extract_json_safely t =
          Inr (drop_trailing_commas
                 (map (\<lambda>c. if c = 0x0D \<or> c = 0x0A then 0x20 else c) (0x7B # body @ [0x7D])))"
    by (simp only: extract_json_safely_def strip_span crlf_to_space_map if_False option.case)
next
  assume "list_all is_space ws \<and> (d = 0x7D \<or> d = 0x5D)"
  then show "drop_trailing_commas (xs @ 0x2C # ws @ d # ys)
          = drop_trailing_commas xs @ d # drop_trailing_commas ys"
    using drop_trailing_commas_removes by blast
next
  assume "\<not> has_trailing_comma s"
  then show "drop_trailing_commas s = s" by (rule drop_trailing_commas_id)
next
  show \<open>extract_json_safely (ustr ''Here is the result: {"a":1,} done'') = Inr (ustr ''{"a":1}'')\<close>
    by (simp add: extract_json_safely_def ustr_def strip_def is_space_def crlf_to_space_def
        replace_char_def)
qed

theorem extract_json_safely_span_witness:
  \<open>extract_json_safely (ustr ''ok: {"a": [1, 2, ] , } bye'') = Inr (ustr ''{"a": [1, 2] }'')
   \<and> (\<exists>e. extract_json_safely (ustr ''} no object {'') = Inl e)
   \<and> drop_trailing_commas (ustr ''[1, ]'') = drop_trailing_commas (ustr ''[1'') @ ustr '']''
   \<and> drop_trailing_commas (ustr ''{}'') = ustr ''{}''\<close>
proof -
  let ?t = \<open>ustr ''ok: {"a": [1, 2, ] , } bye''\<close>
  let ?u = \<open>ustr ''} no object {''\<close>
  have dec: \<open>?t = ustr ''ok: '' @ 0x7B # ustr ''"a": [1, 2, ] , '' @ 0x7D # ustr '' bye''
      \<and> 0x7B \<notin> set (ustr ''ok: '') \<and> 0x7D \<notin> set (ustr '' bye'')\<close>
    by (simp add: ustr_def)
  note th1 = extract_json_safely_span [where t = ?t and pre = \<open>ustr ''ok: ''\<close>
      and body = \<open>ustr ''"a": [1, 2, ] , ''\<close> and post = \<open>ustr '' bye''\<close>]
  from th1 [THEN conjunct2, THEN conjunct1, rule_format, OF dec]
  have \<open>extract_json_safely ?t =
          Inr (drop_trailing_commas
                 (map (\<lambda>c. if c = 0x0D \<or> c = 0x0A then 0x20 else c)
                    (0x7B # ustr ''"a": [1, 2, ] , '' @ [0x7D])))\<close> .
  then have 1: \<open>extract_json_safely ?t = Inr (ustr ''{"a": [1, 2] }'')\<close>
    by (simp add: ustr_def is_space_def)
  have nospan: "?u = [] \<or> \<not> (\<exists>i j. i < j \<and> j < length ?u \<and> ?u ! i = 0x7B \<and> ?u ! j = 0x7D)"
  proof -
    have "\<not> (\<exists>i j. i < j \<and> j < length ?u \<and> ?u ! i = 0x7B \<and> ?u ! j = 0x7D)"
    proof
      assume "\<exists>i j. i < j \<and> j < length ?u \<and> ?u ! i = 0x7B \<and> ?u ! j = 0x7D"
      then obtain i j where ij: "i < j" "j < length ?u" "?u ! i = 0x7B" "?u ! j = 0x7D" by blast
      from ij(2,4) have "j = 0"
        by (simp add: ustr_def nth_Cons' less_Suc_eq split: if_splits)
      with ij(1) show False by simp
    qed
    then show ?thesis by blast
  qed
  from extract_json_safely_span [where t = ?u, THEN conjunct1] nospan
  have 2: "\<exists>e. extract_json_safely ?u = Inl e" by (rule iffD2)
  have ws: "list_all is_space (ustr '' '') \<and> ((0x5D::nat) = 0x7D \<or> (0x5D::nat) = 0x5D)"
    by (simp add: ustr_def is_space_def)
  from extract_json_safely_span [where ws = "ustr '' ''" and d = "0x5D" and xs = "ustr ''[1''"
      and ys = "[]", THEN conjunct2, THEN conjunct2, THEN conjunct1, rule_format, OF ws]
  have "drop_trailing_commas (ustr ''[1'' @ 0x2C # ustr '' '' @ 0x5D # [])
          = drop_trailing_commas (ustr ''[1'') @ 0x5D # drop_trailing_commas []" .
  then have 3: "drop_trailing_commas (ustr ''[1, ]'') = drop_trailing_commas (ustr ''[1'') @ ustr '']''"
    by (simp add: ustr_def)
  have "\<not> has_trailing_comma (ustr ''{}'')"
    unfolding has_trailing_comma_def
  proof
    assume "\<exists>xs ws d ys. ustr ''{}'' = xs @ 0x2C # ws @ d # ys \<and> list_all is_space ws
        \<and> (d = 0x7D \<or> d = 0x5D)"
    then obtain xs r where "ustr ''{}'' = xs @ 0x2C # r" by blast
    then have "0x2C \<in> set (ustr ''{}'')" by (metis in_set_conv_decomp)
    then show False by (simp add: ustr_def)
  qed
  from extract_json_safely_span [where s = "ustr ''{}''", THEN conjunct2, THEN conjunct2,
      THEN conjunct2, THEN conjunct1, rule_format, OF this]
  have 4: "drop_trailing_commas (ustr ''{}'') = ustr ''{}''" .
  from 1 2 3 4 show ?thesis by blast
qed

section \<open>Text normalisation\<close>

lemma space_not_alnum: "is_space c \<Longrightarrow> \<not> is_alnum c"
  by (auto simp: is_space_def is_alnum_def)

lemma strip_all_space:
  assumes "list_all is_space t"
  shows "strip t = []"
proof -
  from assms have "dropWhile is_space t = []" by (simp add: list_all_iff)
  then show ?thesis by (simp only: strip_def rev.simps dropWhile.simps)
qed

lemma last_dropWhile: "dropWhile P xs \<noteq> [] \<Longrightarrow> last (dropWhile P xs) = last xs"
  by (induction xs) (auto split: if_splits)

lemma strip_trimmed:
  "strip s = [] \<or> (\<not> is_space (hd (strip s)) \<and> \<not> is_space (last (strip s)))"
proof (cases "strip s = []")
  case True
  then show ?thesis by simp
next
  case False
  let ?u = "dropWhile is_space s"
  let ?v = "dropWhile is_space (rev ?u)"
  from False have v: "?v \<noteq> []" by (simp add: strip_def)
  have u: "?u \<noteq> []"
  proof
    assume "?u = []"
    then have "?v = []" by (simp only: rev.simps dropWhile.simps)
    with v show False by contradiction
  qed
  have "last (strip s) = hd ?v" using v by (simp add: strip_def last_rev)
  moreover have "\<not> is_space (hd ?v)" using v by (rule hd_dropWhile)
  moreover have "hd (strip s) = last ?v" using v by (simp add: strip_def hd_rev)
  moreover have "last ?v = last (rev ?u)" using v by (rule last_dropWhile)
  moreover have "last (rev ?u) = hd ?u" using u by (simp add: last_rev)
  moreover have "\<not> is_space (hd ?u)" using u by (rule hd_dropWhile)
  ultimately show ?thesis by simp
qed

lemma sub_pairs_spaces:
  "list_all is_space ws \<Longrightarrow> sub_pairs (ws @ r) = ws @ sub_pairs r"
  by (induction ws) (simp_all add: space_not_alnum)

lemma next_nonspace_spaces:
  "list_all is_space ws \<Longrightarrow> next_nonspace (ws @ r) = next_nonspace r"
  by (simp add: next_nonspace_def list_all_iff)

lemma next_nonspace_Cons: "\<not> is_space d \<Longrightarrow> next_nonspace (d # ds) = Some d"
  by (simp add: next_nonspace_def)

lemma delete_between_spaces:
  "list_all is_space ws \<Longrightarrow>
   delete_between p (ws @ r) =
     (if opt_alnum p \<and> opt_alnum (next_nonspace r) then delete_between p r
      else ws @ delete_between p r)"
  by (induction ws) (simp_all add: next_nonspace_spaces)

lemma delete_between_nonspace:
  "\<not> is_space d \<Longrightarrow> delete_between p (d # ds) = d # delete_between (Some d) ds"
  by simp

lemma takeWhile_spaces: "list_all is_space (takeWhile is_space cs)"
  by (simp add: list_all_iff) (meson set_takeWhileD)

lemma dropWhile_head: "dropWhile is_space cs = d # ds \<Longrightarrow> \<not> is_space d"
  by (metis hd_dropWhile list.sel(1) list.distinct(1))

lemma sub_pairs_nonspace:
  "\<not> is_space c \<Longrightarrow> sub_pairs (c # cs) = c # delete_between (Some c) cs"
proof (induction "length cs" arbitrary: c cs rule: less_induct)
  case less
  let ?ws = "takeWhile is_space cs"
  have ws: "list_all is_space ?ws" by (rule takeWhile_spaces)
  have cs: "cs = ?ws @ dropWhile is_space cs" by simp
  show ?case
  proof (cases "dropWhile is_space cs")
    case Nil
    then have all: "list_all is_space cs" by (simp add: dropWhile_eq_Nil_conv list_all_iff)
    have "sub_pairs cs = cs" using sub_pairs_spaces [OF all, of "[]"] by simp
    moreover have "delete_between (Some c) cs = cs"
      using delete_between_spaces [OF all, of "Some c" "[]"]
      by (simp add: next_nonspace_def opt_alnum_def)
    ultimately show ?thesis by (simp add: Nil)
  next
    case (Cons d ds)
    then have d: "\<not> is_space d" by (rule dropWhile_head)
    have len: "length ds < length cs"
      using Cons length_dropWhile_le [of is_space cs] by simp
    have IH: "sub_pairs (d # ds) = d # delete_between (Some d) ds"
      using less(1) [OF len d] .
    have eq: "cs = ?ws @ d # ds" using cs Cons by simp
    have R: "delete_between (Some c) cs =
        (if is_alnum c \<and> is_alnum d then d # delete_between (Some d) ds
         else ?ws @ d # delete_between (Some d) ds)"
      by (subst eq, subst delete_between_spaces [OF ws])
         (simp add: next_nonspace_Cons d opt_alnum_def)
    show ?thesis
    proof (cases "is_alnum c \<and> ?ws \<noteq> [] \<and> is_alnum d")
      case True
      then have "sub_pairs (c # cs) = c # sub_pairs (d # ds)" by (simp add: Cons)
      with True IH R show ?thesis by simp
    next
      case False
      then have "sub_pairs (c # cs) = c # sub_pairs cs" by (auto simp: Cons)
      also have "sub_pairs cs = ?ws @ sub_pairs (d # ds)"
        by (subst eq) (rule sub_pairs_spaces [OF ws])
      finally have L: "sub_pairs (c # cs) = c # ?ws @ d # delete_between (Some d) ds"
        using IH by simp
      show ?thesis
      proof (cases "?ws = []")
        case True
        with L R show ?thesis by simp
      next
        case ne: False
        with False have "\<not> (is_alnum c \<and> is_alnum d)" by simp
        with L R show ?thesis by simp
      qed
    qed
  qed
qed

lemma sub_pairs_delete_between: "sub_pairs t = delete_between None t"
proof -
  let ?ws = "takeWhile is_space t"
  have ws: "list_all is_space ?ws" by (rule takeWhile_spaces)
  have t: "t = ?ws @ dropWhile is_space t" by simp
  have L: "sub_pairs t = ?ws @ sub_pairs (dropWhile is_space t)"
    by (subst t) (rule sub_pairs_spaces [OF ws])
  have R: "delete_between None t = ?ws @ delete_between None (dropWhile is_space t)"
    by (subst t, subst delete_between_spaces [OF ws]) (simp add: opt_alnum_def)
  show ?thesis
  proof (cases "dropWhile is_space t")
    case Nil
    with L R show ?thesis by simp
  next
    case (Cons d ds)
    then have nd: "\<not> is_space d" by (rule dropWhile_head)
    have "sub_pairs (d # ds) = d # delete_between (Some d) ds"
      using nd by (rule sub_pairs_nonspace)
    moreover have "delete_between None (d # ds) = d # delete_between (Some d) ds"
      using nd by (rule delete_between_nonspace)
    ultimately have "sub_pairs (d # ds) = delete_between None (d # ds)" by simp
    with L R Cons show ?thesis by simp
  qed
qed

lemma squeeze_nonspace:
  "r = [] \<or> \<not> is_space (hd r) \<Longrightarrow> squeeze True r = squeeze False r"
  by (cases r) auto

lemma squeeze_True_spaces:
  "list_all is_space ws \<Longrightarrow> r = [] \<or> \<not> is_space (hd r) \<Longrightarrow>
   squeeze True (ws @ r) = squeeze False r"
  by (induction ws) (simp_all add: squeeze_nonspace)

lemma sub_multispace_squeeze: "sub_multispace t = squeeze False t"
proof (induction "length t" arbitrary: t rule: less_induct)
  case less
  show ?case
  proof (cases t)
    case Nil
    then show ?thesis by simp
  next
    case (Cons c cs)
    let ?ws = "takeWhile is_space cs"
    let ?r = "dropWhile is_space cs"
    have ws: "list_all is_space ?ws" by (rule takeWhile_spaces)
    have r: "?r = [] \<or> \<not> is_space (hd ?r)" using hd_dropWhile [of is_space cs] by blast
    have sq: "squeeze True cs = squeeze False ?r"
      using squeeze_True_spaces [OF ws r] by simp
    have IHr: "sub_multispace ?r = squeeze False ?r"
      by (rule less) (simp add: Cons length_dropWhile_le less_Suc_eq_le)
    have IHc: "sub_multispace cs = squeeze False cs"
      by (rule less) (simp add: Cons)
    show ?thesis
    proof (cases "is_space c")
      case False
      with IHc show ?thesis by (simp add: Cons)
    next
      case True
      show ?thesis
      proof (cases "?ws = []")
        case e: True
        then have "cs = [] \<or> \<not> is_space (hd cs)" by (cases cs) (auto split: if_splits)
        moreover from e have "?r = cs" by (metis append_Nil takeWhile_dropWhile_id)
        ultimately show ?thesis using True e IHc sq by (auto simp: Cons)
      next
        case ne: False
        then have "cs \<noteq> [] \<and> is_space (hd cs)" by (cases cs) (auto split: if_splits)
        with True ne IHr sq show ?thesis by (simp add: Cons)
      qed
    qed
  qed
qed

text \<open>
  C9 (as amended). For every input string the normaliser returns the empty string when the
  input is empty or all whitespace, and its result never starts or ends with whitespace.
  When the trimmed input has at least 25 non-overlapping matches of "character of the class,
  whitespace run, character of the class", every whitespace run between two characters of
  the class is deleted, whether it has one character or more, and every remaining run of two
  or more whitespace characters becomes one space; with fewer than 25 matches only the runs
  of two or more whitespace characters are collapsed. The function is total.
\<close>

theorem normalize_spaced_text_cases:
  "(list_all is_space t \<longrightarrow> normalize_spaced_text t = [])
   \<and> (normalize_spaced_text t = []
        \<or> (\<not> is_space (hd (normalize_spaced_text t))
            \<and> \<not> is_space (last (normalize_spaced_text t))))
   \<and> (25 \<le> length (findall_pairs (strip t)) \<longrightarrow>
        normalize_spaced_text t = strip (squeeze False (delete_between None (strip t))))
   \<and> (length (findall_pairs (strip t)) < 25 \<longrightarrow>
        normalize_spaced_text t = strip (squeeze False (strip t)))"
proof (intro conjI impI)
  assume "list_all is_space t"
  then show "normalize_spaced_text t = []"
    by (simp add: normalize_spaced_text_def strip_all_space)
next
  show "normalize_spaced_text t = []
        \<or> (\<not> is_space (hd (normalize_spaced_text t))
            \<and> \<not> is_space (last (normalize_spaced_text t)))"
    using strip_trimmed [of "sub_multispace (strip t)"]
      strip_trimmed [of "sub_multispace (sub_pairs (strip t))"]
    by (auto simp: normalize_spaced_text_def Let_def)
next
  assume "25 \<le> length (findall_pairs (strip t))"
  then have "strip t \<noteq> []" by auto
  with \<open>25 \<le> length (findall_pairs (strip t))\<close>
  show "normalize_spaced_text t = strip (squeeze False (delete_between None (strip t)))"
    by (simp add: normalize_spaced_text_def Let_def sub_multispace_squeeze
        sub_pairs_delete_between)
next
  assume "length (findall_pairs (strip t)) < 25"
  moreover have "strip [] = []" by (simp add: strip_def)
  ultimately show "normalize_spaced_text t = strip (squeeze False (strip t))"
    by (cases "strip t = []")
       (simp_all add: normalize_spaced_text_def Let_def sub_multispace_squeeze)
qed

theorem normalize_spaced_text_counterexample:
  "normalize_spaced_text spaced_example \<noteq> normalize_spaced_text_spec spaced_example"
  by (simp add: normalize_spaced_text_def normalize_spaced_text_spec_def strip_def
      spaced_example_def ustr_def is_space_def is_alnum_def)

theorem normalize_spaced_text_cases_witness:
  "normalize_spaced_text spaced_example
     = ustr ''abababababababababababababababababababababababababcd''
   \<and> normalize_spaced_text (ustr ''  hello   world  '') = ustr ''hello world''
   \<and> normalize_spaced_text (ustr ''   '') = []"
proof -
  have "25 \<le> length (findall_pairs (strip spaced_example))"
    by (simp add: strip_def spaced_example_def ustr_def is_space_def is_alnum_def)
  from normalize_spaced_text_cases [where t = spaced_example, THEN conjunct2, THEN conjunct2,
      THEN conjunct1, rule_format, OF this]
  have 1: "normalize_spaced_text spaced_example
     = ustr ''abababababababababababababababababababababababababcd''"
    by (simp add: strip_def spaced_example_def ustr_def is_space_def is_alnum_def
        next_nonspace_def opt_alnum_def)
  have "length (findall_pairs (strip (ustr ''  hello   world  ''))) < 25"
    by (simp add: strip_def ustr_def is_space_def is_alnum_def)
  from normalize_spaced_text_cases [where t = "ustr ''  hello   world  ''", THEN conjunct2,
      THEN conjunct2, THEN conjunct2, rule_format, OF this]
  have 2: "normalize_spaced_text (ustr ''  hello   world  '') = ustr ''hello world''"
    by (simp add: strip_def ustr_def is_space_def)
  have "list_all is_space (ustr ''   '')"
    by (simp add: ustr_def is_space_def)
  from normalize_spaced_text_cases [where t = "ustr ''   ''", THEN conjunct1, rule_format, OF this]
  have 3: "normalize_spaced_text (ustr ''   '') = []" .
  from 1 2 3 show ?thesis by blast
qed

section \<open>Fit score\<close>

subsection \<open>Binary exponent\<close>

lemma powi_nonneg: "0 \<le> e \<Longrightarrow> (2::rat) powi e = 2 ^ nat e"
  by (simp add: power_int_def)

lemma powi_neg: "(2::rat) powi (- int k) = 1 / 2 ^ k"
  by (simp add: power_int_def inverse_eq_divide power_one_over)

lemma powi_pos: "0 < (2::rat) powi e"
  by simp

lemma ilog2_bounds:
  fixes x :: rat
  assumes "0 < x"
  shows "2 powi ilog2 x \<le> x" and "x < 2 powi (ilog2 x + 1)"
proof -
  have "2 powi ilog2 x \<le> x \<and> x < 2 powi (ilog2 x + 1)"
  proof (cases "1 \<le> x")
    case True
    define n where "n = nat \<lfloor>x\<rfloor>"
    define k where "k = floorlog 2 n"
    from True have n1: "1 \<le> n" unfolding n_def by (simp add: le_nat_iff) 
    then have b: "2 ^ (k - 1) \<le> n" "n < 2 ^ k"
      using floorlog_bounds [of n 2] unfolding k_def by simp_all
    from n1 b(2) have k1: "1 \<le> k" by (cases k) simp_all
    have e: "ilog2 x = int k - 1" using True by (simp add: ilog2_def n_def k_def)
    have nx: "of_nat n \<le> x" using True unfolding n_def by (simp add: of_nat_nat)
    have xn: "x < of_nat n + 1" using True unfolding n_def
      by (simp add: of_nat_nat) linarith
    have p1: "(2::rat) powi (int k - 1) = 2 ^ (k - 1)"
      using k1 by (simp add: powi_nonneg nat_diff_distrib')
    have p2: "(2::rat) ^ (k - 1) \<le> of_nat n"
      using b(1) by (metis of_nat_le_iff of_nat_numeral of_nat_power)
    have p3: "(2::rat) powi (int k - 1 + 1) = 2 ^ k" by (simp add: powi_nonneg)
    have p4: "of_nat n + 1 \<le> (2::rat) ^ k"
    proof -
      from b(2) have "n + 1 \<le> 2 ^ k" by simp
      then have "(of_nat (n + 1) :: rat) \<le> of_nat (2 ^ k)" by (simp only: of_nat_le_iff)
      then show ?thesis by simp
    qed
    from p2 nx have "(2::rat) ^ (k - 1) \<le> x" by linarith
    moreover from p4 xn have "x < (2::rat) ^ k" by linarith
    ultimately show ?thesis unfolding e p1 p3 by simp
  next
    case False
    define c where "c = \<lceil>1 / x\<rceil>"
    define n where "n = nat (c - 1)"
    define k where "k = floorlog 2 n"
    from False assms have gt: "1 < 1 / x" by (simp add: field_simps)
    then have c2: "2 \<le> c" unfolding c_def by (simp add: le_ceiling_iff) 
    then have n1: "1 \<le> n" unfolding n_def by simp
    then have b: "2 ^ (k - 1) \<le> n" "n < 2 ^ k"
      using floorlog_bounds [of n 2] unfolding k_def by simp_all
    from n1 b(2) have k1: "1 \<le> k" by (cases k) simp_all
    have e: "ilog2 x = - int k" using False by (simp add: ilog2_def n_def k_def c_def)
    have cn: "c = int n + 1" using c2 unfolding n_def by simp
    have up: "1 / x \<le> of_int c" unfolding c_def by (rule le_of_int_ceiling)
    have lo: "of_int c - 1 < 1 / x" unfolding c_def by linarith
    have "of_int c \<le> (2::rat) ^ k"
    proof -
      from b(2) have "n + 1 \<le> 2 ^ k" by simp
      then have "(of_nat (n + 1) :: rat) \<le> of_nat (2 ^ k)" by (simp only: of_nat_le_iff)
      then show ?thesis by (simp add: cn)
    qed
    with up have "1 / x \<le> 2 ^ k" by (rule order_trans)
    then have A: "1 / 2 ^ k \<le> x" using assms by (simp add: field_simps)
    have "(2::rat) ^ (k - 1) \<le> of_nat n"
      using b(1) by (metis of_nat_le_iff of_nat_numeral of_nat_power)
    also have "\<dots> = of_int c - 1" by (simp add: cn)
    also have "\<dots> < 1 / x" by (rule lo)
    finally have "(2::rat) ^ (k - 1) < 1 / x" .
    then have B: "x < 1 / 2 ^ (k - 1)" using assms by (simp add: field_simps)
    have "(2::rat) powi (- int k + 1) = 1 / 2 ^ (k - 1)"
    proof -
      have "- int k + 1 = - int (k - 1)" using k1 by simp
      then show ?thesis by (simp only: powi_neg)
    qed
    with A B e show ?thesis by (simp add: powi_neg)
  qed
  then show "2 powi ilog2 x \<le> x" and "x < 2 powi (ilog2 x + 1)" by simp_all
qed

lemma ilog2_unique:
  fixes x :: rat
  assumes "2 powi k \<le> x" "x < 2 powi (k + 1)"
  shows "ilog2 x = k"
proof -
  have "0 < (2::rat) powi k" by simp
  with assms(1) have x: "0 < x" by linarith
  note b = ilog2_bounds [OF x]
  have "\<not> ilog2 x < k"
  proof
    assume "ilog2 x < k"
    then have "ilog2 x + 1 \<le> k" by simp
    then have "(2::rat) powi (ilog2 x + 1) \<le> 2 powi k" by (rule power_int_increasing) simp
    with b(2) assms(1) show False by linarith
  qed
  moreover have "\<not> k < ilog2 x"
  proof
    assume "k < ilog2 x"
    then have "k + 1 \<le> ilog2 x" by simp
    then have "(2::rat) powi (k + 1) \<le> 2 powi ilog2 x" by (rule power_int_increasing) simp
    with b(1) assms(2) show False by linarith
  qed
  ultimately show ?thesis by simp
qed

lemma ilog2_mono:
  fixes x y :: rat
  assumes "0 < x" "x \<le> y"
  shows "ilog2 x \<le> ilog2 y"
proof (rule ccontr)
  assume "\<not> ilog2 x \<le> ilog2 y"
  then have "ilog2 y + 1 \<le> ilog2 x" by simp
  then have "(2::rat) powi (ilog2 y + 1) \<le> 2 powi ilog2 x" by (rule power_int_increasing) simp
  moreover from assms have y: "0 < y" by simp
  ultimately show False
    using ilog2_bounds(1) [OF assms(1)] ilog2_bounds(2) [OF y] assms(2) by linarith
qed

subsection \<open>Rounding to an integer\<close>

lemma rhe_cases:
  "round_half_even x = \<lfloor>x\<rfloor> \<or> round_half_even x = \<lfloor>x\<rfloor> + 1"
  by (simp add: round_half_even_def Let_def)

lemma rhe_error: "\<bar>of_int (round_half_even x) - x\<bar> \<le> 1 / 2"
proof -
  have "of_int \<lfloor>x\<rfloor> \<le> x" "x < of_int \<lfloor>x\<rfloor> + 1" by linarith+
  then show ?thesis
    by (auto simp: round_half_even_def Let_def abs_le_iff)
qed

lemma rhe_of_int: "round_half_even (of_int k) = k"
  by (simp add: round_half_even_def)

lemma rhe_mono:
  assumes "x \<le> y"
  shows "round_half_even x \<le> round_half_even y"
proof (cases "\<lfloor>x\<rfloor> = \<lfloor>y\<rfloor>")
  case False
  with assms have "\<lfloor>x\<rfloor> < \<lfloor>y\<rfloor>" using floor_mono [OF assms] by linarith
  then have "\<lfloor>x\<rfloor> + 1 \<le> \<lfloor>y\<rfloor>" by simp
  moreover have "round_half_even x \<le> \<lfloor>x\<rfloor> + 1" using rhe_cases [of x] by auto
  moreover have "\<lfloor>y\<rfloor> \<le> round_half_even y" using rhe_cases [of y] by auto
  ultimately show ?thesis by linarith
next
  case True
  with assms have "x - of_int \<lfloor>x\<rfloor> \<le> y - of_int \<lfloor>y\<rfloor>" by simp
  with True show ?thesis
    by (auto simp: round_half_even_def Let_def)
qed

lemma rhe_ge: "of_int k \<le> x \<Longrightarrow> k \<le> round_half_even x"
  using rhe_mono [of "of_int k" x] by (simp add: rhe_of_int)

lemma rhe_le: "x \<le> of_int k \<Longrightarrow> round_half_even x \<le> k"
  using rhe_mono [of x "of_int k"] by (simp add: rhe_of_int)

subsection \<open>Rounding to a float\<close>

lemma ulp_pos: "0 < ulp x"
  by (simp add: ulp_def)

lemma fl_ulp: "x \<noteq> 0 \<Longrightarrow> fl x = of_int (round_half_even (x / ulp x)) * ulp x"
  by (simp add: fl_def ulp_def Let_def)

lemma fl_0: "fl 0 = 0"
  by (simp add: fl_def)

lemma powi_split: "(2::rat) powi e = 2 ^ 52 * 2 powi (e - 52)"
proof -
  have "(2::rat) powi e = 2 powi (52 + (e - 52))" by simp
  also have "\<dots> = 2 powi 52 * 2 powi (e - 52)" by (rule power_int_add) simp
  also have "(2::rat) powi 52 = 2 ^ 52" by (simp add: power_int_def)
  finally show ?thesis .
qed

lemma powi_Suc: "(2::rat) powi (e + 1) = 2 * 2 powi e"
  by (simp add: power_int_add)

lemma mant_bounds:
  fixes x :: rat
  assumes "0 < x"
  shows "2 ^ 52 \<le> x / ulp x" and "x / ulp x < 2 ^ 53"
proof -
  from assms have u: "ulp x = 2 powi (ilog2 x - 52)" by (simp add: ulp_def)
  have a: "2 ^ 52 * ulp x \<le> x"
    using ilog2_bounds(1) [OF assms] powi_split [of "ilog2 x"] u by simp
  have b: "x < 2 ^ 53 * ulp x"
    using ilog2_bounds(2) [OF assms] powi_split [of "ilog2 x"] powi_Suc [of "ilog2 x"] u by simp
  from a show "2 ^ 52 \<le> x / ulp x" using ulp_pos [of x] by (simp add: pos_le_divide_eq)
  from b show "x / ulp x < 2 ^ 53" using ulp_pos [of x] by (simp add: pos_divide_less_eq)
qed

lemma ulp_le:
  fixes x :: rat
  assumes "0 < x"
  shows "ulp x \<le> x / 2 ^ 52"
proof -
  have "2 ^ 52 * ulp x \<le> x"
    using mant_bounds(1) [OF assms] ulp_pos [of x] by (simp add: pos_le_divide_eq)
  then show ?thesis by (simp add: field_simps)
qed

lemma fl_error_ulp:
  fixes x :: rat
  assumes "0 < x"
  shows "\<bar>fl x - x\<bar> \<le> ulp x / 2"
proof -
  let ?u = "ulp x"
  have u: "0 < ?u" by (rule ulp_pos)
  from assms have "fl x = of_int (round_half_even (x / ?u)) * ?u" by (simp add: fl_ulp)
  then have "fl x - x = (of_int (round_half_even (x / ?u)) - x / ?u) * ?u"
    using u by (simp add: field_simps)
  then have "\<bar>fl x - x\<bar> = \<bar>of_int (round_half_even (x / ?u)) - x / ?u\<bar> * ?u"
    using u by (simp add: abs_mult)
  also have "\<dots> \<le> 1 / 2 * ?u"
    using rhe_error [of "x / ?u"] u by (intro mult_right_mono) simp_all
  finally show ?thesis by simp
qed

lemma fl_error:
  fixes x :: rat
  assumes "0 < x"
  shows "\<bar>fl x - x\<bar> \<le> x / 2 ^ 53"
proof -
  have "\<bar>fl x - x\<bar> \<le> ulp x / 2" by (rule fl_error_ulp [OF assms])
  also have "\<dots> \<le> (x / 2 ^ 52) / 2" using ulp_le [OF assms] by simp
  also have "\<dots> = x / 2 ^ 53" by simp
  finally show ?thesis .
qed

lemma fl_bounds:
  fixes x :: rat
  assumes "0 < x"
  shows "2 powi ilog2 x \<le> fl x" and "fl x \<le> 2 powi (ilog2 x + 1)"
proof -
  let ?u = "ulp x"
  let ?k = "round_half_even (x / ?u)"
  have u: "0 < ?u" by (rule ulp_pos)
  from assms have ux: "?u = 2 powi (ilog2 x - 52)" by (simp add: ulp_def)
  from assms have f: "fl x = of_int ?k * ?u" by (simp add: fl_ulp)
  have "of_int (2 ^ 52) \<le> x / ?u" using mant_bounds(1) [OF assms] by simp
  then have "2 ^ 52 \<le> ?k" by (rule rhe_ge)
  then have "(of_int (2 ^ 52) :: rat) \<le> of_int ?k" by (simp only: of_int_le_iff)
  then have "2 ^ 52 * ?u \<le> of_int ?k * ?u" using u by (intro mult_right_mono) simp_all
  then show "2 powi ilog2 x \<le> fl x" using powi_split [of "ilog2 x"] ux f by simp
  have "x / ?u \<le> of_int (2 ^ 53)" using mant_bounds(2) [OF assms] by simp
  then have "?k \<le> 2 ^ 53" by (rule rhe_le)
  then have "(of_int ?k :: rat) \<le> of_int (2 ^ 53)" by (simp only: of_int_le_iff)
  then have "of_int ?k * ?u \<le> 2 ^ 53 * ?u" using u by (intro mult_right_mono) simp_all
  then show "fl x \<le> 2 powi (ilog2 x + 1)"
    using powi_split [of "ilog2 x"] powi_Suc [of "ilog2 x"] ux f by simp
qed

lemma fl_pos: "0 < x \<Longrightarrow> 0 < fl x"
  using fl_bounds(1) [of x] powi_pos [of "ilog2 x"] by linarith

lemma fl_nonneg: "0 \<le> x \<Longrightarrow> 0 \<le> fl x"
  using fl_pos [of x] by (cases "x = 0") (simp_all add: fl_0 less_eq_rat_def)

lemma fl_mono_pos:
  fixes x y :: rat
  assumes "0 < x" "x \<le> y"
  shows "fl x \<le> fl y"
proof -
  from assms have y: "0 < y" by simp
  have le: "ilog2 x \<le> ilog2 y" using assms by (rule ilog2_mono)
  show ?thesis
  proof (cases "ilog2 x = ilog2 y")
    case True
    then have u: "ulp x = ulp y" using assms y by (simp add: ulp_def)
    have "x / ulp y \<le> y / ulp y" using assms(2) ulp_pos [of y] by (simp add: divide_right_mono)
    then have "round_half_even (x / ulp y) \<le> round_half_even (y / ulp y)" by (rule rhe_mono)
    then have "(of_int (round_half_even (x / ulp y)) :: rat) \<le> of_int (round_half_even (y / ulp y))"
      by (simp only: of_int_le_iff)
    then have "of_int (round_half_even (x / ulp y)) * ulp y
        \<le> of_int (round_half_even (y / ulp y)) * ulp y"
      using ulp_pos [of y] by (intro mult_right_mono) simp_all
    then show ?thesis using assms(1) y u by (simp add: fl_ulp)
  next
    case False
    with le have "ilog2 x + 1 \<le> ilog2 y" by simp
    then have "(2::rat) powi (ilog2 x + 1) \<le> 2 powi ilog2 y"
      by (rule power_int_increasing) simp
    with fl_bounds(2) [OF assms(1)] fl_bounds(1) [OF y] show ?thesis by linarith
  qed
qed

lemma fl_mono: "0 \<le> x \<Longrightarrow> x \<le> y \<Longrightarrow> fl x \<le> fl y"
proof (cases "x = 0")
  case True
  assume "x \<le> y"
  with True have "0 \<le> y" by simp
  then have "0 \<le> fl y" by (rule fl_nonneg)
  with True show ?thesis by (simp add: fl_0)
next
  case False
  assume "0 \<le> x" "x \<le> y"
  with False have "0 < x" by simp
  then show ?thesis using \<open>x \<le> y\<close> by (rule fl_mono_pos)
qed

lemma fl_exact:
  fixes x :: rat
  assumes "0 < x" "x = of_int k * ulp x"
  shows "fl x = x"
proof -
  from assms(2) have "x / ulp x = of_int k" using ulp_pos [of x] by (simp add: field_simps)
  then have "round_half_even (x / ulp x) = k" by (simp add: rhe_of_int)
  with assms show ?thesis by (simp add: fl_ulp)
qed

lemma fl_idem_pos:
  fixes x :: rat
  assumes "0 < x"
  shows "fl (fl x) = fl x"
proof -
  let ?u = "ulp x"
  let ?k = "round_half_even (x / ?u)"
  let ?e = "ilog2 x"
  have u: "0 < ?u" by (rule ulp_pos)
  from assms have ux: "?u = 2 powi (?e - 52)" by (simp add: ulp_def)
  from assms have f: "fl x = of_int ?k * ?u" by (simp add: fl_ulp)
  have pos: "0 < fl x" using assms by (rule fl_pos)
  have "x / ?u \<le> of_int (2 ^ 53)" using mant_bounds(2) [OF assms] by simp
  then have kle: "?k \<le> 2 ^ 53" by (rule rhe_le)
  show ?thesis
  proof (cases "?k = 2 ^ 53")
    case True
    then have v: "fl x = 2 powi (?e + 1)"
      using f powi_split [of ?e] powi_Suc [of ?e] ux by simp
    have "ilog2 (fl x) = ?e + 1"
    proof (rule ilog2_unique)
      show "2 powi (?e + 1) \<le> fl x" using v by simp
      have "(2::rat) powi (?e + 1) < 2 powi (?e + 1 + 1)"
        by (rule power_int_strict_increasing) simp_all
      then show "fl x < 2 powi (?e + 1 + 1)" using v by simp
    qed
    then have "ulp (fl x) = 2 powi (?e + 1 - 52)" using pos by (simp add: ulp_def)
    then have "ulp (fl x) = 2 * ?u" using ux powi_Suc [of "?e - 52"] by (simp add: algebra_simps)
    then have "fl x = of_int (2 ^ 52) * ulp (fl x)"
      using v powi_split [of ?e] powi_Suc [of ?e] ux by simp
    with pos show ?thesis by (rule fl_exact)
  next
    case False
    with kle have "?k < 2 ^ 53" by simp
    then have "(of_int ?k :: rat) < of_int (2 ^ 53)" by (simp only: of_int_less_iff)
    then have "of_int ?k * ?u < 2 ^ 53 * ?u" using u by (simp add: mult_strict_right_mono)
    then have up: "fl x < 2 powi (?e + 1)"
      using powi_split [of ?e] powi_Suc [of ?e] ux f by simp
    have "ilog2 (fl x) = ?e"
      using fl_bounds(1) [OF assms] up by (rule ilog2_unique)
    then have "ulp (fl x) = ?u" using pos ux by (simp add: ulp_def)
    with f have "fl x = of_int ?k * ulp (fl x)" by simp
    with pos show ?thesis by (rule fl_exact)
  qed
qed

lemma fl_idem: "0 \<le> x \<Longrightarrow> fl (fl x) = fl x"
  using fl_idem_pos [of x] by (cases "x = 0") (simp_all add: fl_0)

lemma section_loop_Cons:
  "section_loop w s (it # items) = section_loop w (add_item w s (status it)) items"
  by (simp add: add_item_def)

lemma section_loop_append:
  "section_loop w s (xs @ ys) = section_loop w (section_loop w s xs) ys"
  by (induction xs arbitrary: s) simp_all

lemma add_item_float:
  assumes "0 \<le> w" "0 \<le> s" "fl s = s"
  shows "0 \<le> add_item w s st \<and> fl (add_item w s st) = add_item w s st"
proof (cases st)
  case Match
  from assms have "0 \<le> s + w" by simp
  then show ?thesis by (simp add: Match add_item_def fl_nonneg fl_idem)
next
  case Partial
  from assms have "0 \<le> fl (1 / 2 * w)" by (simp add: fl_nonneg)
  with assms have "0 \<le> s + fl (1 / 2 * w)" by simp
  then show ?thesis by (simp add: Partial add_item_def fl_nonneg fl_idem)
next
  case Missing
  with assms show ?thesis by (simp add: add_item_def)
qed

lemma section_loop_float:
  assumes "0 \<le> w"
  shows "0 \<le> s \<Longrightarrow> fl s = s \<Longrightarrow>
         0 \<le> section_loop w s xs \<and> fl (section_loop w s xs) = section_loop w s xs"
proof (induction xs arbitrary: s)
  case Nil
  then show ?case by simp
next
  case (Cons it xs)
  from add_item_float [OF assms Cons.prems, of "status it"]
  show ?case unfolding section_loop_Cons by (intro Cons.IH) simp_all
qed

lemma add_item_mono:
  assumes "0 \<le> w" "0 \<le> s" "s \<le> s'"
  shows "add_item w s st \<le> add_item w s' st"
proof (cases st)
  case Match
  from assms show ?thesis by (simp add: Match add_item_def fl_mono)
next
  case Partial
  from assms have "0 \<le> fl (1 / 2 * w)" by (simp add: fl_nonneg)
  with assms show ?thesis by (simp add: Partial add_item_def fl_mono)
next
  case Missing
  with assms show ?thesis by (simp add: add_item_def)
qed

lemma add_item_nonneg:
  assumes "0 \<le> w" "0 \<le> s"
  shows "0 \<le> add_item w s st"
proof (cases st)
  case Match
  from assms show ?thesis by (simp add: Match add_item_def fl_nonneg)
next
  case Partial
  from assms have "0 \<le> fl (1 / 2 * w)" by (simp add: fl_nonneg)
  with assms show ?thesis by (simp add: Partial add_item_def fl_nonneg)
next
  case Missing
  with assms show ?thesis by (simp add: add_item_def)
qed

lemma section_loop_mono:
  assumes "0 \<le> w"
  shows "0 \<le> s \<Longrightarrow> s \<le> s' \<Longrightarrow> section_loop w s xs \<le> section_loop w s' xs"
proof (induction xs arbitrary: s s')
  case Nil
  then show ?case by simp
next
  case (Cons it xs)
  show ?case unfolding section_loop_Cons
  proof (rule Cons.IH)
    show "0 \<le> add_item w s (status it)" using assms Cons.prems(1) by (rule add_item_nonneg)
    show "add_item w s (status it) \<le> add_item w s' (status it)"
      using assms Cons.prems by (rule add_item_mono)
  qed
qed

lemma add_item_upgrade:
  assumes w: "0 \<le> w" "fl w = w" and s: "0 \<le> s" "fl s = s"
    and r: "status_rank st \<le> status_rank st'"
  shows "add_item w s st \<le> add_item w s st'"
proof -
  have h0: "0 \<le> fl (1 / 2 * w)" using w(1) by (simp add: fl_nonneg)
  have "fl (1 / 2 * w) \<le> fl w" using w(1) by (intro fl_mono) simp_all
  then have hw: "fl (1 / 2 * w) \<le> w" using w(2) by simp
  have a: "s \<le> fl (s + fl (1 / 2 * w))"
  proof -
    have "fl s \<le> fl (s + fl (1 / 2 * w))" using s(1) h0 by (intro fl_mono) simp_all
    then show ?thesis using s(2) by simp
  qed
  have b: "fl (s + fl (1 / 2 * w)) \<le> fl (s + w)"
    using s(1) h0 hw by (intro fl_mono) simp_all
  from a b have c: "s \<le> fl (s + w)" by simp
  show ?thesis
    using r a b c by (cases st; cases st') (simp_all add: add_item_def)
qed

lemma section_score_float:
  assumes "0 \<le> tot"
  shows "0 \<le> section_score items tot"
proof (cases "items = []")
  case True
  then show ?thesis by (simp add: section_score_def)
next
  case False
  have "0 \<le> fl (of_nat (length items))" by (simp add: fl_nonneg)
  with assms have "0 \<le> tot / fl (of_nat (length items))" by simp
  then have "0 \<le> fl (tot / fl (of_nat (length items)))" by (rule fl_nonneg)
  then show ?thesis
    using section_loop_float [of "fl (tot / fl (of_nat (length items)))" 0 items]
    by (simp add: section_score_def Let_def fl_0 False)
qed

lemma section_score_upgrade:
  assumes tot: "0 \<le> tot" and r: "status_rank (status it) \<le> status_rank st"
  shows "section_score (pre @ it # post) tot
         \<le> section_score (pre @ it\<lparr>status := st\<rparr> # post) tot"
proof -
  let ?n = "length (pre @ it # post)"
  let ?w = "fl (tot / fl (of_nat ?n))"
  have "0 \<le> fl (of_nat ?n)" by (simp add: fl_nonneg)
  with tot have q: "0 \<le> tot / fl (of_nat ?n)" by simp
  then have w: "0 \<le> ?w" "fl ?w = ?w" by (simp_all add: fl_nonneg fl_idem)
  let ?s = "section_loop ?w 0 pre"
  have s: "0 \<le> ?s" "fl ?s = ?s"
    using section_loop_float [OF w(1), of 0 pre] by (simp_all add: fl_0)
  have "add_item ?w ?s (status it) \<le> add_item ?w ?s st"
    using w s r by (rule add_item_upgrade)
  moreover have "0 \<le> add_item ?w ?s (status it)" using w(1) s(1) by (rule add_item_nonneg)
  ultimately have "section_loop ?w (add_item ?w ?s (status it)) post
      \<le> section_loop ?w (add_item ?w ?s st) post"
    using section_loop_mono [OF w(1)] by blast
  then show ?thesis
    by (simp add: section_score_def Let_def section_loop_append add_item_def)
qed

lemma compute_fit_score_of_mono:
  assumes "0 \<le> a" "a \<le> a'" "0 \<le> b" "b \<le> b'"
  shows "max 0 (min 100 (round_half_even (fl (a + b))))
         \<le> max 0 (min 100 (round_half_even (fl (a' + b'))))"
proof -
  from assms have "fl (a + b) \<le> fl (a' + b')" by (intro fl_mono) simp_all
  then have "round_half_even (fl (a + b)) \<le> round_half_even (fl (a' + b'))" by (rule rhe_mono)
  then show ?thesis by simp
qed


lemma fl_half:
  fixes x :: rat
  assumes "0 < x"
  shows "fl (x / 2) = fl x / 2"
proof -
  let ?e = "ilog2 x"
  have h: "0 < x / 2" using assms by simp
  have "ilog2 (x / 2) = ?e - 1"
  proof (rule ilog2_unique)
    have "(2::rat) powi ?e = 2 * 2 powi (?e - 1)" using powi_Suc [of "?e - 1"] by simp
    with ilog2_bounds(1) [OF assms] show "2 powi (?e - 1) \<le> x / 2" by simp
    have "(2::rat) powi (?e + 1) = 2 * 2 powi (?e - 1 + 1)" using powi_Suc [of ?e] by simp
    with ilog2_bounds(2) [OF assms] show "x / 2 < 2 powi (?e - 1 + 1)" by simp
  qed
  then have eq: "ilog2 (x / 2) - 52 = ?e - 52 - 1" by simp
  have "ulp (x / 2) = 2 powi (ilog2 (x / 2) - 52)" using h by (simp add: ulp_def)
  then have "ulp (x / 2) = 2 powi (?e - 52 - 1)" by (simp only: eq)
  moreover have "(2::rat) powi (?e - 52) = 2 * 2 powi (?e - 52 - 1)"
    using powi_Suc [of "?e - 52 - 1"] by simp
  moreover have "ulp x = 2 powi (?e - 52)" using assms by (simp add: ulp_def)
  ultimately have u: "ulp (x / 2) = ulp x / 2" by simp
  have m: "x / 2 / (ulp x / 2) = x / ulp x" by simp
  have "fl (x / 2) = of_int (round_half_even (x / 2 / ulp (x / 2))) * ulp (x / 2)"
    using h by (intro fl_ulp) simp
  also have "\<dots> = of_int (round_half_even (x / ulp x)) * (ulp x / 2)"
    by (simp only: u m)
  also have "\<dots> = fl x / 2" using assms by (simp add: fl_ulp)
  finally show ?thesis .
qed

lemma fl_of_nat:
  assumes "n < 2 ^ 53"
  shows "fl (of_nat n) = of_nat n"
proof (cases "n = 0")
  case True
  then show ?thesis by (simp add: fl_0)
next
  case False
  let ?x = "of_nat n :: rat"
  let ?e = "ilog2 ?x"
  from False have x: "0 < ?x" by simp
  have "?x < of_nat (2 ^ 53)" using assms by (simp only: of_nat_less_iff)
  then have lt: "?x < 2 powi 53" by (simp add: power_int_def)
  have e: "?e \<le> 52"
  proof (rule ccontr)
    assume "\<not> ?e \<le> 52"
    then have "53 \<le> ?e" by simp
    then have "(2::rat) powi 53 \<le> 2 powi ?e" by (rule power_int_increasing) simp
    with ilog2_bounds(1) [OF x] lt show False by linarith
  qed
  define d where "d = nat (52 - ?e)"
  have "?e - 52 = - int d" using e by (simp add: d_def)
  then have u: "ulp ?x = 1 / 2 ^ d" using x by (simp add: ulp_def powi_neg)
  have "?x = of_int (int n * 2 ^ d) * ulp ?x" by (simp add: u)
  with x show ?thesis by (rule fl_exact)
qed

lemma add_item_credit:
  assumes "0 < w" "fl w = w" "0 \<le> s" "fl s = s"
  shows "add_item w s st = fl (s + w * credit st)"
proof (cases st)
  case Match
  then show ?thesis by (simp add: add_item_def)
next
  case Partial
  have hh: "fl (w / 2) = w / 2" using fl_half [OF assms(1)] assms(2) by simp
  show ?thesis by (simp add: Partial add_item_def hh)
next
  case Missing
  with assms show ?thesis by (simp add: add_item_def)
qed

lemma credits_Cons: "credits (it # items) = credit (status it) + credits items"
  by (simp add: credits_def)

lemma credit_bounds: "0 \<le> credit st" "credit st \<le> 1"
  by (cases st; simp)+

lemma credits_bounds: "0 \<le> credits items" "credits items \<le> of_nat (length items)"
proof -
  have "0 \<le> credits items \<and> credits items \<le> of_nat (length items)"
  proof (induction items)
    case Nil
    show ?case by (simp add: credits_def)
  next
    case (Cons it items)
    with credit_bounds [of "status it"] show ?case by (simp add: credits_Cons)
  qed
  then show "0 \<le> credits items" "credits items \<le> of_nat (length items)" by simp_all
qed

lemma delta_pos: "0 < delta"
  by (simp add: delta_def)

lemma fl_error128:
  fixes y :: rat
  assumes "0 \<le> y" "y \<le> 128"
  shows "\<bar>fl y - y\<bar> \<le> delta"
proof (cases "y = 0")
  case True
  then show ?thesis using delta_pos by (simp add: fl_0)
next
  case False
  with assms have "0 < y" by simp
  then have "\<bar>fl y - y\<bar> \<le> y / 2 ^ 53" by (rule fl_error)
  also have "\<dots> \<le> 128 / 2 ^ 53" using assms(2) by (simp add: divide_right_mono)
  also have "\<dots> = delta" by (simp add: delta_def)
  finally show ?thesis .
qed

lemma section_loop_error:
  assumes w: "0 < w" "fl w = w"
  shows "0 \<le> s \<Longrightarrow> fl s = s \<Longrightarrow> s + (w + delta) * of_nat (length items) \<le> 128 \<Longrightarrow>
         \<bar>section_loop w s items - (s + w * credits items)\<bar> \<le> delta * of_nat (length items)"
proof (induction items arbitrary: s)
  case Nil
  then show ?case by (simp add: credits_def)
next
  case (Cons it items)
  let ?c = "credit (status it)"
  let ?y = "s + w * ?c"
  let ?s1 = "add_item w s (status it)"
  let ?n = "of_nat (length items) :: rat"
  have c: "0 \<le> ?c" "?c \<le> 1" by (rule credit_bounds)+
  have wc: "0 \<le> w * ?c" "w * ?c \<le> w"
    using w(1) c by (simp_all add: mult_left_le)
  have n0: "0 \<le> ?n" by simp
  have ex: "(w + delta) * of_nat (length (it # items)) = (w + delta) * ?n + w + delta"
    by (simp add: algebra_simps)
  have big: "s + ((w + delta) * ?n + w + delta) \<le> 128" using Cons.prems(3) unfolding ex .
  have nn: "0 \<le> (w + delta) * ?n" using w(1) n0 delta_pos by simp
  have yb: "?y \<le> 128" using big nn wc delta_pos by linarith
  have y0: "0 \<le> ?y" using Cons.prems(1) wc by linarith
  have s1: "?s1 = fl ?y" using w Cons.prems(1,2) by (rule add_item_credit)
  have e1: "\<bar>?s1 - ?y\<bar> \<le> delta" unfolding s1 using y0 yb by (rule fl_error128)
  have s1f: "0 \<le> ?s1" "fl ?s1 = ?s1"
    unfolding s1 using y0 by (simp_all add: fl_nonneg fl_idem)
  have "?s1 \<le> ?y + delta" using e1 by linarith
  then have pre: "?s1 + (w + delta) * ?n \<le> 128" using big wc by linarith
  have IH: "\<bar>section_loop w ?s1 items - (?s1 + w * credits items)\<bar> \<le> delta * ?n"
    using s1f pre by (rule Cons.IH)
  have "section_loop w s (it # items) - (s + w * credits (it # items))
      = (section_loop w ?s1 items - (?s1 + w * credits items)) + (?s1 - ?y)"
    unfolding section_loop_Cons credits_Cons by (simp add: algebra_simps)
  then have "\<bar>section_loop w s (it # items) - (s + w * credits (it # items))\<bar>
      \<le> \<bar>section_loop w ?s1 items - (?s1 + w * credits items)\<bar> + \<bar>?s1 - ?y\<bar>"
    by (simp only: abs_triangle_ineq)
  also have "\<dots> \<le> delta * ?n + delta" using IH e1 by (rule add_mono)
  also have "\<dots> = delta * of_nat (length (it # items))" by (simp add: algebra_simps)
  finally show ?case .
qed

lemma eps_pos: "0 < eps"
  by (simp add: eps_def)

lemma delta_eps: "delta = 128 * eps"
  by (simp add: delta_def eps_def)

lemma fl_error_eps:
  fixes x :: rat
  assumes "0 < x"
  shows "\<bar>fl x - x\<bar> \<le> x * eps"
  using fl_error [OF assms] by (simp add: eps_def)

lemma section_exact_credits:
  assumes "items \<noteq> []"
  shows "section_exact items tot = tot / of_nat (length items) * credits items"
proof -
  have "sum_list (map (\<lambda>it. tot / of_nat (length items) * credit (status it)) items)
      = tot / of_nat (length items) * sum_list (map (\<lambda>it. credit (status it)) items)"
    by (rule sum_list_const_mult)
  then show ?thesis using assms by (simp only: section_exact_def credits_def if_False)
qed

lemma section_exact_Nil: "section_exact [] tot = 0"
  by (simp add: section_exact_def)

lemma section_exact_bounds:
  assumes "0 \<le> tot"
  shows "0 \<le> section_exact items tot" and "section_exact items tot \<le> tot"
proof -
  have "0 \<le> section_exact items tot \<and> section_exact items tot \<le> tot"
  proof (cases "items = []")
    case True
    with assms show ?thesis by (simp add: section_exact_def)
  next
    case False
    let ?n = "of_nat (length items) :: rat"
    from False have n: "0 < ?n" by simp
    have a: "0 \<le> tot / ?n" using assms n by simp
    have "tot / ?n * credits items \<le> tot / ?n * ?n"
      using credits_bounds(2) [of items] a by (rule mult_left_mono)
    also have "\<dots> = tot" using n by simp
    finally have "tot / ?n * credits items \<le> tot" .
    moreover have "0 \<le> tot / ?n * credits items"
      using a credits_bounds(1) [of items] by (rule mult_nonneg_nonneg)
    ultimately show ?thesis by (simp only: section_exact_credits [OF False])
  qed
  then show "0 \<le> section_exact items tot" and "section_exact items tot \<le> tot" by simp_all
qed

lemma section_score_error:
  assumes len: "length items \<le> 10000" and tot: "0 < tot" "tot \<le> 70"
  shows "\<bar>section_score items tot - section_exact items tot\<bar>
         \<le> delta * of_nat (length items) + tot * eps"
proof (cases "items = []")
  case True
  have "0 \<le> tot * eps" using tot(1) eps_pos by simp
  with True show ?thesis by (simp add: section_score_def section_exact_def)
next
  case False
  let ?n = "of_nat (length items) :: rat"
  let ?a = "tot / ?n"
  let ?w = "fl ?a"
  from False have n: "0 < ?n" by simp
  have nle: "?n \<le> 10000" using len by (metis of_nat_le_iff of_nat_numeral)
  have "length items < 2 ^ 53" using len by simp
  then have fn: "fl (of_nat (length items)) = ?n" by (rule fl_of_nat)
  have a: "0 < ?a" using tot n by simp
  have w: "0 < ?w" "fl ?w = ?w" using a by (simp_all add: fl_pos fl_idem_pos)
  have ew: "\<bar>?w - ?a\<bar> \<le> ?a * eps" using a by (rule fl_error_eps)
  have an: "?a * ?n = tot" using n by simp
  have h: "?w \<le> ?a + ?a * eps" using ew by linarith
  have "?w * ?n \<le> (?a + ?a * eps) * ?n"
    by (rule mult_right_mono [OF h]) (use n in simp)
  also have "\<dots> = ?a * ?n + ?a * ?n * eps" by (simp only: algebra_simps)
  also have "\<dots> = tot + tot * eps" by (simp only: an)
  finally have wn: "?w * ?n \<le> tot + tot * eps" .
  have te: "tot * eps \<le> 70 * eps"
    by (rule mult_right_mono [OF tot(2)]) (use eps_pos in simp)
  have e1: "70 * eps \<le> 1" by (simp add: eps_def)
  have "delta * ?n \<le> delta * 10000"
    by (rule mult_left_mono [OF nle]) (use delta_pos in simp)
  also have "\<dots> \<le> 1" by (simp add: delta_def)
  finally have dn: "delta * ?n \<le> 1" .
  have pre: "0 + (?w + delta) * ?n \<le> 128"
  proof -
    have "(?w + delta) * ?n = ?w * ?n + delta * ?n" by (simp only: algebra_simps)
    then show ?thesis using wn dn te e1 tot(2) by linarith
  qed
  have loop: "\<bar>section_loop ?w 0 items - (0 + ?w * credits items)\<bar> \<le> delta * ?n"
    using w _ _ pre by (rule section_loop_error) (simp_all add: fl_0)
  have "?w * credits items - ?a * credits items = (?w - ?a) * credits items"
    by (simp only: left_diff_distrib)
  then have "\<bar>?w * credits items - ?a * credits items\<bar> = \<bar>?w - ?a\<bar> * \<bar>credits items\<bar>"
    by (simp only: abs_mult)
  also have "\<dots> = \<bar>?w - ?a\<bar> * credits items"
    using credits_bounds(1) [of items] by simp
  also have "\<dots> \<le> ?a * eps * ?n"
  proof -
    have "0 \<le> ?a * eps" using a eps_pos by (intro mult_nonneg_nonneg) simp_all
    with ew credits_bounds(2) [of items] show ?thesis
      using credits_bounds(1) [of items] by (rule mult_mono)
  qed
  also have "\<dots> = ?a * ?n * eps" by (simp only: algebra_simps)
  also have "\<dots> = tot * eps" by (simp only: an)
  finally have scale: "\<bar>?w * credits items - ?a * credits items\<bar> \<le> tot * eps" .
  have "section_score items tot = section_loop ?w 0 items"
    using False by (simp add: section_score_def Let_def fn)
  moreover have "section_exact items tot = ?a * credits items"
    using False by (rule section_exact_credits)
  ultimately show ?thesis using loop scale by linarith
qed

lemma nearest_from_close:
  fixes E F eta :: rat and D P :: int
  assumes D: "0 < D" and E: "E * of_int D = of_int P"
    and close: "\<bar>F - E\<bar> \<le> eta" and small: "2 * of_int D * eta < 1"
  shows "nearest_int E (round_half_even F)"
proof -
  let ?r = "of_int (round_half_even F) :: rat"
  have rF: "\<bar>?r - F\<bar> \<le> 1 / 2" by (rule rhe_error)
  have D': "0 < (of_int D :: rat)" using D by simp
  have up: "?r - E \<le> 1 / 2"
  proof (rule ccontr)
    assume "\<not> ?r - E \<le> 1 / 2"
    then have g: "0 < ?r - E - 1 / 2" by simp
    let ?z = "(2 * round_half_even F - 1) * D - 2 * P"
    have z: "of_int ?z = 2 * of_int D * (?r - E - 1 / 2)"
      using E by (simp add: algebra_simps)
    have "0 < 2 * of_int D * (?r - E - 1 / 2)" using D' g by simp
    then have "(0::rat) < of_int ?z" by (simp only: z)
    then have "0 < ?z" by (simp only: of_int_0_less_iff)
    then have "1 \<le> ?z" by linarith
    then have "(1::rat) \<le> of_int ?z" by (simp only: of_int_1_le_iff)
    then have one: "1 \<le> 2 * of_int D * (?r - E - 1 / 2)" by (simp only: z)
    have "?r - E - 1 / 2 \<le> eta" using rF close by linarith
    then have "2 * of_int D * (?r - E - 1 / 2) \<le> 2 * of_int D * eta"
      using D' by (intro mult_left_mono) simp_all
    with one small show False by linarith
  qed
  have lo: "E - ?r \<le> 1 / 2"
  proof (rule ccontr)
    assume "\<not> E - ?r \<le> 1 / 2"
    then have g: "0 < E - ?r - 1 / 2" by simp
    let ?z = "2 * P - (2 * round_half_even F + 1) * D"
    have z: "of_int ?z = 2 * of_int D * (E - ?r - 1 / 2)"
      using E by (simp add: algebra_simps)
    have "0 < 2 * of_int D * (E - ?r - 1 / 2)" using D' g by simp
    then have "(0::rat) < of_int ?z" by (simp only: z)
    then have "0 < ?z" by (simp only: of_int_0_less_iff)
    then have "1 \<le> ?z" by linarith
    then have "(1::rat) \<le> of_int ?z" by (simp only: of_int_1_le_iff)
    then have one: "1 \<le> 2 * of_int D * (E - ?r - 1 / 2)" by (simp only: z)
    have "E - ?r - 1 / 2 \<le> eta" using rF close by linarith
    then have "2 * of_int D * (E - ?r - 1 / 2) \<le> 2 * of_int D * eta"
      using D' by (intro mult_left_mono) simp_all
    with one small show False by linarith
  qed
  from up lo show ?thesis unfolding nearest_int_def by linarith
qed

lemma credits_half: "\<exists>A::int. credits items = of_int A / 2"
proof (induction items)
  case Nil
  have "credits [] = of_int 0 / 2" by (simp add: credits_def)
  then show ?case by blast
next
  case (Cons it items)
  then obtain A :: int where A: "credits items = of_int A / 2" by blast
  have "credits (it # items) = of_int (A + (case status it of Match \<Rightarrow> 2 | Partial \<Rightarrow> 1 | Missing \<Rightarrow> 0)) / 2"
    by (cases "status it") (simp_all add: credits_Cons A add_divide_distrib)
  then show ?case by blast
qed

lemma section_exact_int:
  fixes k :: int
  shows "\<exists>P::int. section_exact items (2 * of_int k) * of_nat (max 1 (length items)) = of_int P"
proof (cases "items = []")
  case True
  have "section_exact items (2 * of_int k) * of_nat (max 1 (length items)) = of_int 0"
    using True by (simp add: section_exact_def)
  then show ?thesis by blast
next
  case False
  obtain A :: int where A: "credits items = of_int A / 2" using credits_half by blast
  from False have n: "max 1 (length items) = length items" "(of_nat (length items) :: rat) \<noteq> 0"
    by (simp_all add: Suc_leI max_def)
  have "section_exact items (2 * of_int k) * of_nat (max 1 (length items))
      = section_exact items (2 * of_int k) * of_nat (length items)"
    by (simp only: n(1))
  also have "\<dots> = of_int (k * A)"
    using n(2) by (simp add: section_exact_credits [OF False] A)
  finally show ?thesis by blast
qed

lemma score_exact_int:
  "\<exists>P::int. score_exact must nice
      * of_int (int (max 1 (length must)) * int (max 1 (length nice))) = of_int P"
proof -
  obtain P1 :: int where P1: "section_exact must (2 * of_int 35) * of_nat (max 1 (length must)) = of_int P1"
    using section_exact_int by blast
  obtain P2 :: int where P2: "section_exact nice (2 * of_int 15) * of_nat (max 1 (length nice)) = of_int P2"
    using section_exact_int by blast
  let ?n = "of_nat (max 1 (length must)) :: rat"
  let ?m = "of_nat (max 1 (length nice)) :: rat"
  have "score_exact must nice * (?n * ?m)
      = (section_exact must 70 * ?n) * ?m + (section_exact nice 30 * ?m) * ?n"
    by (simp only: score_exact_def algebra_simps)
  also have "\<dots> = of_int P1 * ?m + of_int P2 * ?n"
    using P1 P2 by simp
  also have "\<dots> = of_int (P1 * int (max 1 (length nice)) + P2 * int (max 1 (length must)))"
    by simp
  finally have "score_exact must nice * of_int (int (max 1 (length must)) * int (max 1 (length nice)))
      = of_int (P1 * int (max 1 (length nice)) + P2 * int (max 1 (length must)))"
    by simp
  then show ?thesis by blast
qed

lemma score_exact_bounds: "0 \<le> score_exact must nice" "score_exact must nice \<le> 100"
proof -
  have "0 \<le> section_exact must 70" "section_exact must 70 \<le> 70"
    "0 \<le> section_exact nice 30" "section_exact nice 30 \<le> 30"
    by (simp_all add: section_exact_bounds)
  then show "0 \<le> score_exact must nice" "score_exact must nice \<le> 100"
    unfolding score_exact_def by linarith+
qed

lemma compute_fit_score_range: "0 \<le> compute_fit_score must nice \<and> compute_fit_score must nice \<le> 100"
  by (simp add: compute_fit_score_def compute_fit_score_of_def Let_def)

lemma compute_fit_score_nearest:
  assumes n: "length must \<le> 10000" and m: "length nice \<le> 10000"
  shows "nearest_int (score_exact must nice) (compute_fit_score must nice)"
proof -
  let ?n = "of_nat (length must) :: rat"
  let ?m = "of_nat (length nice) :: rat"
  let ?s1 = "section_score must 70"
  let ?s2 = "section_score nice 30"
  let ?E1 = "section_exact must 70"
  let ?E2 = "section_exact nice 30"
  let ?E = "score_exact must nice"
  let ?F = "fl (?s1 + ?s2)"
  let ?D = "int (max 1 (length must)) * int (max 1 (length nice))"
  have E: "?E = ?E1 + ?E2" by (simp add: score_exact_def)
  have nle: "?n \<le> 10000" using n by (metis of_nat_le_iff of_nat_numeral)
  have mle: "?m \<le> 10000" using m by (metis of_nat_le_iff of_nat_numeral)
  have e1: "\<bar>?s1 - ?E1\<bar> \<le> delta * ?n + 70 * eps" using n by (rule section_score_error) simp_all
  have e2: "\<bar>?s2 - ?E2\<bar> \<le> delta * ?m + 30 * eps" using m by (rule section_score_error) simp_all
  have p: "0 \<le> ?s1" "0 \<le> ?s2" by (simp_all add: section_score_float)
  have b: "?E1 \<le> 70" "?E2 \<le> 30" by (simp_all add: section_exact_bounds)
  have dn: "delta * ?n \<le> delta * 10000"
    by (rule mult_left_mono [OF nle]) (use delta_pos in simp)
  have dm: "delta * ?m \<le> delta * 10000"
    by (rule mult_left_mono [OF mle]) (use delta_pos in simp)
  have d1: "delta * 10000 \<le> 1" by (simp add: delta_def)
  have ep: "100 * eps \<le> delta" "0 < eps" by (simp_all add: delta_eps eps_pos)
  have sum: "?s1 + ?s2 \<le> 128" using e1 e2 b dn dm d1 ep delta_pos d1 by linarith
  have "0 \<le> ?s1 + ?s2" using p by simp
  then have e3: "\<bar>?F - (?s1 + ?s2)\<bar> \<le> delta" using sum by (rule fl_error128)
  define eta where "eta = 20002 * delta"
  have close: "\<bar>?F - ?E\<bar> \<le> eta"
    unfolding eta_def E using e1 e2 e3 dn dm ep by linarith
  obtain P :: int where P: "?E * of_int ?D = of_int P" using score_exact_int by blast
  have D0: "0 < ?D" by simp
  have "max 1 (length must) \<le> 10000" "max 1 (length nice) \<le> 10000" using n m by simp_all
  then have "max 1 (length must) * max 1 (length nice) \<le> 10000 * 10000" by (rule mult_le_mono)
  then have "?D \<le> 100000000" by (simp flip: of_nat_mult)
  then have Dle: "(of_int ?D :: rat) \<le> 100000000" by (metis of_int_le_iff of_int_numeral)
  have "0 \<le> eta" using delta_pos by (simp add: eta_def)
  then have "2 * of_int ?D * eta \<le> 2 * 100000000 * eta"
    using Dle by (intro mult_right_mono mult_left_mono) simp_all
  also have "\<dots> < 1" by (simp add: eta_def delta_def)
  finally have small: "2 * of_int ?D * eta < 1" .
  have near: "nearest_int ?E (round_half_even ?F)"
    using D0 P close small by (rule nearest_from_close)
  let ?r = "round_half_even ?F"
  have "\<bar>of_int ?r - ?E\<bar> \<le> 1 / 2" using near by (simp add: nearest_int_def)
  with score_exact_bounds [of must nice]
  have "- 1 < (of_int ?r :: rat)" "(of_int ?r :: rat) < 101" by linarith+
  then have "(of_int (- 1) :: rat) < of_int ?r" "(of_int ?r :: rat) < of_int 101" by simp_all
  then have "- 1 < ?r" "?r < 101" by (simp_all only: of_int_less_iff)
  then have "max 0 (min 100 ?r) = ?r" by simp
  then have "compute_fit_score must nice = ?r"
    by (simp add: compute_fit_score_def compute_fit_score_of_def Let_def)
  with near show ?thesis by simp
qed

subsection \<open>The score\<close>

lemma section_loop_status:
  "section_loop w s (map (\<lambda>it. match_item [] (status it)) items) = section_loop w s items"
  by (induction items arbitrary: s) (simp_all add: match_item_def)

lemma section_score_status:
  "section_score (map (\<lambda>it. match_item [] (status it)) items) tot = section_score items tot"
  by (simp add: section_score_def section_loop_status)

lemma compute_fit_score_status:
  "compute_fit_score (map (\<lambda>it. match_item [] (status it)) must)
                     (map (\<lambda>it. match_item [] (status it)) nice)
   = compute_fit_score must nice"
  by (simp only: compute_fit_score_def compute_fit_score_of_def section_score_status)

lemma compute_fit_score_example:
  "compute_fit_score (map (match_item []) [Match, Partial, Missing])
                     (map (match_item []) [Match]) = 65"
  by code_simp

lemma compute_fit_score_empty: "compute_fit_score [] [] = 0"
  by code_simp

subsection \<open>A float sum inside one binade\<close>

text \<open>
  While the running sum stays between two consecutive powers of two and lies on the grid of
  the floats there, every \<open>s += w\<close> adds the same multiple \<open>c\<close> of the grid spacing. This
  gives the float sums of the two long lists without running their loops step by step.
\<close>

lemma rhe_near:
  assumes "of_int R - 1 / 2 < x" "x < of_int R + 1 / 2"
  shows "round_half_even x = R"
proof -
  let ?r = "round_half_even x"
  have "\<bar>of_int ?r - x\<bar> \<le> 1 / 2" by (rule rhe_error)
  with assms have "(of_int ?r :: rat) < of_int R + 1" "(of_int R :: rat) - 1 < of_int ?r"
    by linarith+
  then have "(of_int ?r :: rat) < of_int (R + 1)" "(of_int (R - 1) :: rat) < of_int ?r"
    by simp_all
  then have "?r < R + 1" "R - 1 < ?r" by (simp_all only: of_int_less_iff)
  then show ?thesis by linarith
qed

lemma rhe_tie:
  assumes "x = of_int R + 1 / 2 \<or> x = of_int R - 1 / 2" "even R"
  shows "round_half_even x = R"
  using assms(1)
proof
  assume x: "x = of_int R + 1 / 2"
  have "\<lfloor>x\<rfloor> = R" unfolding x by linarith
  with x assms(2) show ?thesis by (simp add: round_half_even_def Let_def)
next
  assume x: "x = of_int R - 1 / 2"
  have f: "\<lfloor>x\<rfloor> = R - 1" unfolding x by linarith
  have "odd (R - 1)" using assms(2) by simp
  with x f show ?thesis by (simp add: round_half_even_def Let_def)
qed

lemma fl_in_binade:
  fixes x :: rat
  assumes lo: "2 powi k \<le> x" and hi: "x < 2 powi (k + 1)"
    and r: "round_half_even (x / 2 powi (k - 52)) = R"
  shows "fl x = of_int R * 2 powi (k - 52)"
proof -
  have "0 < (2::rat) powi k" by (rule powi_pos)
  with lo have x: "0 < x" by linarith
  have "ilog2 x = k" using lo hi by (rule ilog2_unique)
  with x have k: "ilog2 \<bar>x\<bar> = k" by simp
  from x have "x \<noteq> 0" by simp
  then show ?thesis by (simp only: fl_def k Let_def if_False r)
qed

lemma fl_value:
  fixes x :: rat
  assumes "2 powi k \<le> x \<and> x < 2 powi (k + 1)
       \<and> of_int R - 1 / 2 < x / 2 powi (k - 52) \<and> x / 2 powi (k - 52) < of_int R + 1 / 2
       \<and> y = of_int R * 2 powi (k - 52)"
  shows "fl x = y"
proof -
  have "round_half_even (x / 2 powi (k - 52)) = R"
    using assms by (intro rhe_near) simp_all
  with assms show ?thesis by (simp add: fl_in_binade)
qed

lemma fl_value_tie:
  fixes x :: rat
  assumes "2 powi k \<le> x \<and> x < 2 powi (k + 1)
       \<and> (x / 2 powi (k - 52) = of_int R + 1 / 2 \<or> x / 2 powi (k - 52) = of_int R - 1 / 2)
       \<and> even R
       \<and> y = of_int R * 2 powi (k - 52)"
  shows "fl x = y"
proof -
  have "round_half_even (x / 2 powi (k - 52)) = R"
    using assms by (intro rhe_tie) simp_all
  with assms show ?thesis by (simp add: fl_in_binade)
qed

lemma fl_grid_step:
  fixes w :: rat
  assumes lo: "2 powi k \<le> of_int S * 2 powi (k - 52) + w"
    and hi: "of_int S * 2 powi (k - 52) + w < 2 powi (k + 1)"
    and c: "of_int c - 1 / 2 < w / 2 powi (k - 52)" "w / 2 powi (k - 52) < of_int c + 1 / 2"
  shows "fl (of_int S * 2 powi (k - 52) + w) = of_int (S + c) * 2 powi (k - 52)"
proof -
  let ?u = "(2::rat) powi (k - 52)"
  let ?x = "of_int S * ?u + w"
  have u: "0 < ?u" by (rule powi_pos)
  have q: "?x / ?u = of_int S + w / ?u" using u by (simp add: field_simps)
  have "round_half_even (?x / ?u) = S + c"
    unfolding q using c by (intro rhe_near) simp_all
  with lo hi show ?thesis by (rule fl_in_binade)
qed

lemma section_loop_run:
  fixes w :: rat
  assumes it: "status it = Match"
    and c: "of_int c - 1 / 2 < w / 2 powi (k - 52)" "w / 2 powi (k - 52) < of_int c + 1 / 2"
    and c0: "0 \<le> c"
    and lo: "2 powi k \<le> of_int S * 2 powi (k - 52) + w"
    and hi: "of_int (S + (int n - 1) * c) * 2 powi (k - 52) + w < 2 powi (k + 1)"
  shows "section_loop w (of_int S * 2 powi (k - 52)) (replicate n it)
       = of_int (S + int n * c) * 2 powi (k - 52)"
  using lo hi
proof (induction n arbitrary: S)
  case 0
  show ?case by simp
next
  case (Suc n)
  let ?u = "(2::rat) powi (k - 52)"
  have u: "0 < ?u" by (rule powi_pos)
  have nc: "0 \<le> int n * c" using c0 by simp
  then have "(0::rat) \<le> of_int (int n * c)" by (simp only: of_int_0_le_iff)
  then have "0 \<le> of_int (int n * c) * ?u" using u by simp
  moreover have "of_int (S + (int (Suc n) - 1) * c) * ?u = of_int S * ?u + of_int (int n * c) * ?u"
    by (simp add: algebra_simps)
  ultimately have hi1: "of_int S * ?u + w < 2 powi (k + 1)" using Suc.prems(2) by linarith
  have st: "fl (of_int S * ?u + w) = of_int (S + c) * ?u"
    using Suc.prems(1) hi1 c by (rule fl_grid_step)
  have "(0::rat) \<le> of_int c" using c0 by (simp only: of_int_0_le_iff)
  then have "0 \<le> of_int c * ?u" using u by simp
  moreover have "of_int (S + c) * ?u = of_int S * ?u + of_int c * ?u" by (simp add: algebra_simps)
  ultimately have lo2: "2 powi k \<le> of_int (S + c) * ?u + w" using Suc.prems(1) by linarith
  have e: "S + c + (int n - 1) * c = S + (int (Suc n) - 1) * c" by (simp add: algebra_simps)
  have hi2: "of_int (S + c + (int n - 1) * c) * ?u + w < 2 powi (k + 1)"
    using Suc.prems(2) by (simp only: e)
  have "section_loop w (of_int S * ?u) (replicate (Suc n) it)
      = section_loop w (fl (of_int S * ?u + w)) (replicate n it)"
    by (simp add: it)
  also have "\<dots> = section_loop w (of_int (S + c) * ?u) (replicate n it)" by (simp only: st)
  also have "\<dots> = of_int (S + c + int n * c) * ?u" using lo2 hi2 by (rule Suc.IH)
  also have "S + c + int n * c = S + int (Suc n) * c" by (simp add: algebra_simps)
  finally show ?case .
qed

lemma loop_advance_run:
  fixes w :: rat
  assumes prev: "section_loop w 0 (replicate t it) = s"
    and it: "status it = Match"
    and num: "s = of_int S * 2 powi (k - 52)
       \<and> of_int c - 1 / 2 < w / 2 powi (k - 52) \<and> w / 2 powi (k - 52) < of_int c + 1 / 2
       \<and> 0 \<le> c
       \<and> 2 powi k \<le> of_int S * 2 powi (k - 52) + w
       \<and> of_int (S + (int n - 1) * c) * 2 powi (k - 52) + w < 2 powi (k + 1)
       \<and> s' = of_int (S + int n * c) * 2 powi (k - 52)"
    and t': "t' = t + n"
  shows "section_loop w 0 (replicate t' it) = s'"
proof -
  have "section_loop w 0 (replicate t' it) = section_loop w s (replicate n it)"
    by (simp only: t' replicate_add section_loop_append prev)
  also have "\<dots> = section_loop w (of_int S * 2 powi (k - 52)) (replicate n it)"
    using num by simp
  also have "\<dots> = of_int (S + int n * c) * 2 powi (k - 52)"
    using num by (intro section_loop_run it) simp_all
  also have "\<dots> = s'" using num by simp
  finally show ?thesis .
qed

lemma loop_advance_step:
  fixes w :: rat
  assumes prev: "section_loop w 0 (replicate t it) = s"
    and it: "status it = Match"
    and num: "2 powi k \<le> s + w \<and> s + w < 2 powi (k + 1)
       \<and> of_int R - 1 / 2 < (s + w) / 2 powi (k - 52)
       \<and> (s + w) / 2 powi (k - 52) < of_int R + 1 / 2
       \<and> s' = of_int R * 2 powi (k - 52)"
    and t': "t' = t + 1"
  shows "section_loop w 0 (replicate t' it) = s'"
proof -
  have f: "fl (s + w) = s'" using num by (rule fl_value)
  have "section_loop w 0 (replicate t' it) = section_loop w s (replicate 1 it)"
    by (simp only: t' replicate_add section_loop_append prev)
  also have "\<dots> = s'" using f by (simp add: it)
  finally show ?thesis .
qed

lemma loop_advance_tie:
  fixes w :: rat
  assumes prev: "section_loop w 0 (replicate t it) = s"
    and it: "status it = Match"
    and num: "2 powi k \<le> s + w \<and> s + w < 2 powi (k + 1)
       \<and> ((s + w) / 2 powi (k - 52) = of_int R + 1 / 2
          \<or> (s + w) / 2 powi (k - 52) = of_int R - 1 / 2)
       \<and> even R
       \<and> s' = of_int R * 2 powi (k - 52)"
    and t': "t' = t + 1"
  shows "section_loop w 0 (replicate t' it) = s'"
proof -
  have f: "fl (s + w) = s'" using num by (rule fl_value_tie)
  have "section_loop w 0 (replicate t' it) = section_loop w s (replicate 1 it)"
    by (simp only: t' replicate_add section_loop_append prev)
  also have "\<dots> = s'" using f by (simp add: it)
  finally show ?thesis .
qed

lemma section_loop_missing:
  "status it = Missing \<Longrightarrow> section_loop w s (replicate n it) = s"
  by (induction n) simp_all

lemma long_must_loop:
  assumes it: "status it = Match"
  shows "section_loop (5089117987323903 / 4611686018427387904) 0 (replicate 56108 it) = 4356998169438559 / 70368744177664"
proof -
  let ?w = "5089117987323903 / 4611686018427387904 :: rat"
  have h0: "section_loop ?w 0 (replicate 0 it) = 0" by simp
  have h1: "section_loop ?w 0 (replicate 1 it) = 5089117987323903 / 4611686018427387904"
    by (rule loop_advance_step [OF h0 it, where R = "5089117987323903" and k = "-10"]) simp_all
  have h2: "section_loop ?w 0 (replicate 2 it) = 5089117987323903 / 2305843009213693952"
    by (rule loop_advance_step [OF h1 it, where R = "5089117987323903" and k = "-9"]) simp_all
  have h3: "section_loop ?w 0 (replicate 3 it) = 3816838490492927 / 1152921504606846976"
    by (rule loop_advance_tie [OF h2 it, where R = "7633676980985854" and k = "-9"]) simp_all
  have h4: "section_loop ?w 0 (replicate 7 it) = 8905956477816831 / 1152921504606846976"
    by (rule loop_advance_run [OF h3 it, where S = "3816838490492927" and k = "-8" and c = "1272279496830976" and n = "4"])
      simp_all
  have h5: "section_loop ?w 0 (replicate 8 it) = 5089117987323903 / 576460752303423488"
    by (rule loop_advance_step [OF h4 it, where R = "5089117987323903" and k = "-7"]) simp_all
  have h6: "section_loop ?w 0 (replicate 14 it) = 8905956477816831 / 576460752303423488"
    by (rule loop_advance_run [OF h5 it, where S = "5089117987323903" and k = "-7" and c = "636139748415488" and n = "6"])
      simp_all
  have h7: "section_loop ?w 0 (replicate 15 it) = 4771048113116159 / 288230376151711744"
    by (rule loop_advance_step [OF h6 it, where R = "4771048113116159" and k = "-6"]) simp_all
  have h8: "section_loop ?w 0 (replicate 28 it) = 8905956477816831 / 288230376151711744"
    by (rule loop_advance_run [OF h7 it, where S = "4771048113116159" and k = "-6" and c = "318069874207744" and n = "13"])
      simp_all
  have h9: "section_loop ?w 0 (replicate 29 it) = 4612013176012287 / 144115188075855872"
    by (rule loop_advance_step [OF h8 it, where R = "4612013176012287" and k = "-5"]) simp_all
  have h10: "section_loop ?w 0 (replicate 56 it) = 8905956477816831 / 144115188075855872"
    by (rule loop_advance_run [OF h9 it, where S = "4612013176012287" and k = "-5" and c = "159034937103872" and n = "27"])
      simp_all
  have h11: "section_loop ?w 0 (replicate 57 it) = 4532495707460351 / 72057594037927936"
    by (rule loop_advance_step [OF h10 it, where R = "4532495707460351" and k = "-4"]) simp_all
  have h12: "section_loop ?w 0 (replicate 113 it) = 8985473946368767 / 72057594037927936"
    by (rule loop_advance_run [OF h11 it, where S = "4532495707460351" and k = "-4" and c = "79517468551936" and n = "56"])
      simp_all
  have h13: "section_loop ?w 0 (replicate 114 it) = 4532495707460351 / 36028797018963968"
    by (rule loop_advance_step [OF h12 it, where R = "4532495707460351" and k = "-3"]) simp_all
  have h14: "section_loop ?w 0 (replicate 226 it) = 8985473946368767 / 36028797018963968"
    by (rule loop_advance_run [OF h13 it, where S = "4532495707460351" and k = "-3" and c = "39758734275968" and n = "112"])
      simp_all
  have h15: "section_loop ?w 0 (replicate 227 it) = 4512616340322367 / 18014398509481984"
    by (rule loop_advance_step [OF h14 it, where R = "4512616340322367" and k = "-2"]) simp_all
  have h16: "section_loop ?w 0 (replicate 453 it) = 9005353313506751 / 18014398509481984"
    by (rule loop_advance_run [OF h15 it, where S = "4512616340322367" and k = "-2" and c = "19879367137984" and n = "226"])
      simp_all
  have h17: "section_loop ?w 0 (replicate 454 it) = 4512616340322367 / 9007199254740992"
    by (rule loop_advance_step [OF h16 it, where R = "4512616340322367" and k = "-1"]) simp_all
  have h18: "section_loop ?w 0 (replicate 906 it) = 9005353313506751 / 9007199254740992"
    by (rule loop_advance_run [OF h17 it, where S = "4512616340322367" and k = "-1" and c = "9939683568992" and n = "452"])
      simp_all
  have h19: "section_loop ?w 0 (replicate 907 it) = 4507646498537871 / 4503599627370496"
    by (rule loop_advance_step [OF h18 it, where R = "4507646498537871" and k = "0"]) simp_all
  have h20: "section_loop ?w 0 (replicate 1812 it) = 9005353313506751 / 4503599627370496"
    by (rule loop_advance_run [OF h19 it, where S = "4507646498537871" and k = "0" and c = "4969841784496" and n = "905"])
      simp_all
  have h21: "section_loop ?w 0 (replicate 1813 it) = 4505161577645623 / 2251799813685248"
    by (rule loop_advance_step [OF h20 it, where R = "4505161577645623" and k = "1"]) simp_all
  have h22: "section_loop ?w 0 (replicate 3624 it) = 9005353313506751 / 2251799813685248"
    by (rule loop_advance_run [OF h21 it, where S = "4505161577645623" and k = "1" and c = "2484920892248" and n = "1811"])
      simp_all
  have h23: "section_loop ?w 0 (replicate 3625 it) = 4503919117199499 / 1125899906842624"
    by (rule loop_advance_step [OF h22 it, where R = "4503919117199499" and k = "2"]) simp_all
  have h24: "section_loop ?w 0 (replicate 7249 it) = 9006595773952875 / 1125899906842624"
    by (rule loop_advance_run [OF h23 it, where S = "4503919117199499" and k = "2" and c = "1242460446124" and n = "3624"])
      simp_all
  have h25: "section_loop ?w 0 (replicate 7250 it) = 4503919117199499 / 562949953421312"
    by (rule loop_advance_step [OF h24 it, where R = "4503919117199499" and k = "3"]) simp_all
  have h26: "section_loop ?w 0 (replicate 14498 it) = 9006595773952875 / 562949953421312"
    by (rule loop_advance_run [OF h25 it, where S = "4503919117199499" and k = "3" and c = "621230223062" and n = "7248"])
      simp_all
  have h27: "section_loop ?w 0 (replicate 14499 it) = 140737765690249 / 8796093022208"
    by (rule loop_advance_step [OF h26 it, where R = "4503608502087968" and k = "4"]) simp_all
  have h28: "section_loop ?w 0 (replicate 28997 it) = 4503453194532203 / 140737488355328"
    by (rule loop_advance_run [OF h27 it, where S = "4503608502087968" and k = "4" and c = "310615111531" and n = "14498"])
      simp_all
  have h29: "section_loop ?w 0 (replicate 56108 it) = 4356998169438559 / 70368744177664"
    by (rule loop_advance_run [OF h28 it, where S = "4503453194532203" and k = "5" and c = "155307555765" and n = "27111"])
      simp_all
  from h29 show ?thesis .
qed

lemma long_nice_loop:
  assumes it: "status it = Match"
  shows "section_loop (8723377137270237 / 18446744073709551616) 0 (replicate 56214 it) = 7482542761137317 / 281474976710656"
proof -
  let ?w = "8723377137270237 / 18446744073709551616 :: rat"
  have h0: "section_loop ?w 0 (replicate 0 it) = 0" by simp
  have h1: "section_loop ?w 0 (replicate 1 it) = 8723377137270237 / 18446744073709551616"
    by (rule loop_advance_step [OF h0 it, where R = "8723377137270237" and k = "-12"]) simp_all
  have h2: "section_loop ?w 0 (replicate 2 it) = 8723377137270237 / 9223372036854775808"
    by (rule loop_advance_step [OF h1 it, where R = "8723377137270237" and k = "-11"]) simp_all
  have h3: "section_loop ?w 0 (replicate 3 it) = 3271266426476339 / 2305843009213693952"
    by (rule loop_advance_step [OF h2 it, where R = "6542532852952678" and k = "-10"]) simp_all
  have h4: "section_loop ?w 0 (replicate 4 it) = 8723377137270237 / 4611686018427387904"
    by (rule loop_advance_run [OF h3 it, where S = "6542532852952678" and k = "-10" and c = "2180844284317559" and n = "1"])
      simp_all
  have h5: "section_loop ?w 0 (replicate 5 it) = 2726055355396949 / 1152921504606846976"
    by (rule loop_advance_step [OF h4 it, where R = "5452110710793898" and k = "-9"]) simp_all
  have h6: "section_loop ?w 0 (replicate 8 it) = 4361688568635119 / 1152921504606846976"
    by (rule loop_advance_run [OF h5 it, where S = "5452110710793898" and k = "-9" and c = "1090422142158780" and n = "3"])
      simp_all
  have h7: "section_loop ?w 0 (replicate 16 it) = 8723377137270239 / 1152921504606846976"
    by (rule loop_advance_run [OF h6 it, where S = "4361688568635119" and k = "-8" and c = "545211071079390" and n = "8"])
      simp_all
  have h8: "section_loop ?w 0 (replicate 17 it) = 2317147052087407 / 288230376151711744"
    by (rule loop_advance_step [OF h7 it, where R = "4634294104174814" and k = "-7"]) simp_all
  have h9: "section_loop ?w 0 (replicate 33 it) = 4497991336404967 / 288230376151711744"
    by (rule loop_advance_run [OF h8 it, where S = "4634294104174814" and k = "-7" and c = "272605535539695" and n = "16"])
      simp_all
  have h10: "section_loop ?w 0 (replicate 66 it) = 4497991336404959 / 144115188075855872"
    by (rule loop_advance_run [OF h9 it, where S = "4497991336404967" and k = "-6" and c = "136302767769847" and n = "33"])
      simp_all
  have h11: "section_loop ?w 0 (replicate 132 it) = 8995982672809943 / 144115188075855872"
    by (rule loop_advance_run [OF h10 it, where S = "4497991336404959" and k = "-5" and c = "68151383884924" and n = "66"])
      simp_all
  have h12: "section_loop ?w 0 (replicate 133 it) = 4532067028347433 / 72057594037927936"
    by (rule loop_advance_step [OF h11 it, where R = "4532067028347433" and k = "-4"]) simp_all
  have h13: "section_loop ?w 0 (replicate 264 it) = 8995982672809955 / 72057594037927936"
    by (rule loop_advance_run [OF h12 it, where S = "4532067028347433" and k = "-4" and c = "34075691942462" and n = "131"])
      simp_all
  have h14: "section_loop ?w 0 (replicate 265 it) = 282189323898513 / 2251799813685248"
    by (rule loop_advance_step [OF h13 it, where R = "4515029182376208" and k = "-3"]) simp_all
  have h15: "section_loop ?w 0 (replicate 528 it) = 8995982672809961 / 36028797018963968"
    by (rule loop_advance_run [OF h14 it, where S = "4515029182376208" and k = "-3" and c = "17037845971231" and n = "263"])
      simp_all
  have h16: "section_loop ?w 0 (replicate 529 it) = 1126627564847649 / 4503599627370496"
    by (rule loop_advance_step [OF h15 it, where R = "4506510259390596" and k = "-2"]) simp_all
  have h17: "section_loop ?w 0 (replicate 1057 it) = 2251125398948829 / 4503599627370496"
    by (rule loop_advance_run [OF h16 it, where S = "4506510259390596" and k = "-2" and c = "8518922985615" and n = "528"])
      simp_all
  have h18: "section_loop ?w 0 (replicate 2114 it) = 4502250797897857 / 4503599627370496"
    by (rule loop_advance_run [OF h17 it, where S = "4502250797897658" and k = "-1" and c = "4259461492808" and n = "1057"])
      simp_all
  have h19: "section_loop ?w 0 (replicate 4229 it) = 9006631326542317 / 4503599627370496"
    by (rule loop_advance_run [OF h18 it, where S = "4502250797897857" and k = "0" and c = "2129730746404" and n = "2115"])
      simp_all
  have h20: "section_loop ?w 0 (replicate 4230 it) = 563047566080545 / 281474976710656"
    by (rule loop_advance_step [OF h19 it, where R = "4504380528644360" and k = "1"]) simp_all
  have h21: "section_loop ?w 0 (replicate 8458 it) = 562914457908901 / 140737488355328"
    by (rule loop_advance_run [OF h20 it, where S = "4504380528644360" and k = "1" and c = "1064865373202" and n = "4228"])
      simp_all
  have h22: "section_loop ?w 0 (replicate 16917 it) = 9007163759229067 / 1125899906842624"
    by (rule loop_advance_run [OF h21 it, where S = "4503315663271208" and k = "2" and c = "532432686601" and n = "8459"])
      simp_all
  have h23: "section_loop ?w 0 (replicate 16918 it) = 2251924047978917 / 281474976710656"
    by (rule loop_advance_step [OF h22 it, where R = "4503848095957834" and k = "3"]) simp_all
  have h24: "section_loop ?w 0 (replicate 33834 it) = 4503581879610317 / 281474976710656"
    by (rule loop_advance_run [OF h23 it, where S = "4503848095957834" and k = "3" and c = "266216343300" and n = "16916"])
      simp_all
  have h25: "section_loop ?w 0 (replicate 56214 it) = 7482542761137317 / 281474976710656"
    by (rule loop_advance_run [OF h24 it, where S = "4503581879610317" and k = "4" and c = "133108171650" and n = "22380"])
      simp_all
  from h25 show ?thesis .
qed

lemma long_must_score: "section_score long_must 70 = 4356998169438559 / 70368744177664"
proof -
  let ?m = "match_item [] Match"
  let ?z = "match_item [] Missing"
  have len: "length long_must = 63433" and ne: "long_must \<noteq> []" by (simp_all add: long_must_def)
  have "fl (of_nat 63433) = (of_nat 63433 :: rat)" by (rule fl_of_nat) simp
  then have n: "fl (of_nat 63433) = (63433 :: rat)" by simp
  have w: "fl (70 / 63433) = (5089117987323903 / 4611686018427387904 :: rat)"
    by (rule fl_value [where k = "-10" and R = "5089117987323903"]) simp
  have m: "status ?m = Match" and z: "status ?z = Missing" by (simp_all add: match_item_def)
  have "section_score long_must 70 = section_loop (5089117987323903 / 4611686018427387904) 0 long_must"
    using ne by (simp only: section_score_def if_False len n w Let_def)
  also have "\<dots> = section_loop (5089117987323903 / 4611686018427387904) (4356998169438559 / 70368744177664) (replicate 7325 ?z)"
    by (simp only: long_must_def section_loop_append long_must_loop [OF m])
  also have "\<dots> = 4356998169438559 / 70368744177664" using z by (rule section_loop_missing)
  finally show ?thesis .
qed

lemma long_nice_score: "section_score long_nice 30 = 7482542761137317 / 281474976710656"
proof -
  let ?m = "match_item [] Match"
  let ?z = "match_item [] Missing"
  have len: "length long_nice = 63439" and ne: "long_nice \<noteq> []" by (simp_all add: long_nice_def)
  have "fl (of_nat 63439) = (of_nat 63439 :: rat)" by (rule fl_of_nat) simp
  then have n: "fl (of_nat 63439) = (63439 :: rat)" by simp
  have w: "fl (30 / 63439) = (8723377137270237 / 18446744073709551616 :: rat)"
    by (rule fl_value [where k = "-12" and R = "8723377137270237"]) simp
  have m: "status ?m = Match" and z: "status ?z = Missing" by (simp_all add: match_item_def)
  have "section_score long_nice 30 = section_loop (8723377137270237 / 18446744073709551616) 0 long_nice"
    using ne by (simp only: section_score_def if_False len n w Let_def)
  also have "\<dots> = section_loop (8723377137270237 / 18446744073709551616) (7482542761137317 / 281474976710656) (replicate 7225 ?z)"
    by (simp only: long_nice_def section_loop_append long_nice_loop [OF m])
  also have "\<dots> = 7482542761137317 / 281474976710656" using z by (rule section_loop_missing)
  finally show ?thesis .
qed

lemma credits_append: "credits (xs @ ys) = credits xs + credits ys"
  by (simp add: credits_def)

lemma credits_replicate: "credits (replicate n it) = of_nat n * credit (status it)"
  by (induction n) (simp_all add: credits_def algebra_simps)

lemma long_sum: "fl (section_score long_must 70 + section_score long_nice 30) = 778454232465361 / 8796093022208"
  unfolding long_must_score long_nice_score
  by (rule fl_value [where k = "6" and R = "6227633859722888"]) simp

lemma long_score: "compute_fit_score long_must long_nice = 88"
proof -
  have "round_half_even (778454232465361 / 8796093022208) = 88" by (rule rhe_near) simp_all
  then show ?thesis
    by (simp add: compute_fit_score_def compute_fit_score_of_def Let_def long_sum)
qed

lemma long_exact: "score_exact long_must long_nice = 356135158700 / 4024126087"
proof -
  have ne: "long_must \<noteq> []" "long_nice \<noteq> []" by (simp_all add: long_must_def long_nice_def)
  have c: "credits long_must = 56108" "credits long_nice = 56214"
    by (simp_all add: long_must_def long_nice_def credits_append credits_replicate match_item_def)
  have l: "length long_must = 63433" "length long_nice = 63439"
    by (simp_all add: long_must_def long_nice_def)
  show ?thesis
    unfolding score_exact_def section_exact_credits [OF ne(1)] section_exact_credits [OF ne(2)] c l
    by simp
qed

lemma tie_exact:
  "score_exact (map (match_item []) [Match, Match, Match, Missing]) [] = 105 / 2"
  "score_exact (map (match_item []) [Match, Match, Match, Partial, Partial, Partial]) [] = 105 / 2"
  by (simp_all add: score_exact_def section_exact_def match_item_def)

lemma tie_down: "compute_fit_score (map (match_item []) [Match, Match, Match, Missing]) [] = 52"
  by code_simp

lemma tie_up:
  "compute_fit_score (map (match_item []) [Match, Match, Match, Partial, Partial, Partial]) [] = 53"
  by code_simp

text \<open>
  C1 (as amended). For every pair of lists of up to 10000 items each, compute_fit_score
  returns an integer nearest to the value of the reference algorithm in exact arithmetic: each
  item of a non-empty list weighs its section weight (70 for the must-haves, 30 for the
  nice-to-haves) divided by the item count, and earns all of it for a match, half for a
  partial match and nothing when missing; the two sums are added. When that value lies
  halfway between two integers the result is one of the two, and which one depends on the
  rounding errors of the float sums: the value 52.5 gives 52 for three matches and a missing
  item, and 53 for three matches and three partial matches. The result lies in [0, 100] for
  all lists, so the clamp never changes it, and an empty list contributes 0. The lists
  [match, partial, missing] and [match] give 65; two empty lists give 0.
\<close>

theorem compute_fit_score_reference:
  "(length must \<le> 10000 \<and> length nice \<le> 10000 \<longrightarrow>
      nearest_int (score_exact must nice) (compute_fit_score must nice))
   \<and> 0 \<le> compute_fit_score must nice \<and> compute_fit_score must nice \<le> 100
   \<and> section_score [] tot = 0 \<and> section_exact [] tot = 0
   \<and> (map status must = [Match, Partial, Missing] \<and> map status nice = [Match] \<longrightarrow>
        compute_fit_score must nice = 65)
   \<and> compute_fit_score [] [] = 0
   \<and> score_exact (map (match_item []) [Match, Match, Match, Missing]) [] = 105 / 2
   \<and> compute_fit_score (map (match_item []) [Match, Match, Match, Missing]) [] = 52
   \<and> score_exact (map (match_item []) [Match, Match, Match, Partial, Partial, Partial]) []
       = 105 / 2
   \<and> compute_fit_score (map (match_item []) [Match, Match, Match, Partial, Partial, Partial]) []
       = 53"
proof (intro conjI impI)
  assume "length must \<le> 10000 \<and> length nice \<le> 10000"
  then show "nearest_int (score_exact must nice) (compute_fit_score must nice)"
    by (simp add: compute_fit_score_nearest)
next
  show "0 \<le> compute_fit_score must nice" "compute_fit_score must nice \<le> 100"
    using compute_fit_score_range [of must nice] by simp_all
  show "section_score [] tot = 0" by (simp add: section_score_def)
  show "section_exact [] tot = 0" by (rule section_exact_Nil)
  show "compute_fit_score [] [] = 0" by (rule compute_fit_score_empty)
  show "score_exact (map (match_item []) [Match, Match, Match, Missing]) [] = 105 / 2"
    by (rule tie_exact)
  show "compute_fit_score (map (match_item []) [Match, Match, Match, Missing]) [] = 52"
    by (rule tie_down)
  show "score_exact (map (match_item []) [Match, Match, Match, Partial, Partial, Partial]) []
       = 105 / 2"
    by (rule tie_exact)
  show "compute_fit_score (map (match_item []) [Match, Match, Match, Partial, Partial, Partial]) []
       = 53"
    by (rule tie_up)
next
  assume a: "map status must = [Match, Partial, Missing] \<and> map status nice = [Match]"
  have m: "map (\<lambda>it. match_item [] (status it)) must = map (match_item []) (map status must)"
    "map (\<lambda>it. match_item [] (status it)) nice = map (match_item []) (map status nice)"
    by simp_all
  have "compute_fit_score must nice
      = compute_fit_score (map (match_item []) (map status must))
                          (map (match_item []) (map status nice))"
    by (simp only: compute_fit_score_status flip: m)
  also have "\<dots> = 65" using a by (simp only: compute_fit_score_example)
  finally show "compute_fit_score must nice = 65" .
qed

theorem compute_fit_score_reference_witness:
  "nearest_int (105 / 2)
     (compute_fit_score [match_item [] Match, match_item [] Match, match_item [] Match,
                         match_item [] Missing] [])
   \<and> compute_fit_score [match_item (ustr ''python'') Match, match_item (ustr ''sql'') Partial,
                        match_item (ustr ''aws'') Missing] [match_item (ustr ''git'') Match] = 65"
proof -
  let ?must = "[match_item [] Match, match_item [] Match, match_item [] Match, match_item [] Missing]"
  have len: "length ?must \<le> 10000 \<and> length ([] :: MatchItem list) \<le> 10000" by simp
  have ex: "score_exact ?must [] = 105 / 2"
    by (simp add: score_exact_def section_exact_def match_item_def)
  from compute_fit_score_reference [where must = ?must and nice = "[]", THEN conjunct1,
      rule_format, OF len]
  have 1: "nearest_int (105 / 2) (compute_fit_score ?must [])" by (simp only: ex)
  let ?m2 = "[match_item (ustr ''python'') Match, match_item (ustr ''sql'') Partial,
              match_item (ustr ''aws'') Missing]"
  let ?n2 = "[match_item (ustr ''git'') Match]"
  have st: "map status ?m2 = [Match, Partial, Missing] \<and> map status ?n2 = [Match]"
    by (simp add: match_item_def)
  from compute_fit_score_reference [where must = ?m2 and nice = ?n2, THEN conjunct2,
      THEN conjunct2, THEN conjunct2, THEN conjunct2, THEN conjunct2, THEN conjunct1,
      rule_format, OF st]
  have 2: "compute_fit_score ?m2 ?n2 = 65" .
  from 1 2 show ?thesis by blast
qed

theorem compute_fit_score_counterexample:
  "compute_fit_score long_must long_nice = 88
   \<and> score_exact long_must long_nice = 356135158700 / 4024126087
   \<and> \<not> nearest_int (score_exact long_must long_nice) (compute_fit_score long_must long_nice)"
proof (intro conjI)
  show "compute_fit_score long_must long_nice = 88" by (rule long_score)
  show "score_exact long_must long_nice = 356135158700 / 4024126087" by (rule long_exact)
  show "\<not> nearest_int (score_exact long_must long_nice) (compute_fit_score long_must long_nice)"
    unfolding long_score long_exact nearest_int_def by simp
qed

text \<open>
  C7. compute_fit_score is monotonic in the status of an item: for every pair of lists and
  every item of either, raising its status (missing to partial, partial to match, missing to
  match) and leaving the rest as it is never lowers the score.
\<close>

theorem compute_fit_score_monotone:
  "(status_rank (status it) \<le> status_rank st \<longrightarrow>
      compute_fit_score (pre @ it # post) nice
      \<le> compute_fit_score (pre @ it\<lparr>status := st\<rparr> # post) nice)
   \<and> (status_rank (status it) \<le> status_rank st \<longrightarrow>
      compute_fit_score must (pre @ it # post)
      \<le> compute_fit_score must (pre @ it\<lparr>status := st\<rparr> # post))"
proof (intro conjI impI)
  assume r: "status_rank (status it) \<le> status_rank st"
  have "section_score (pre @ it # post) 70 \<le> section_score (pre @ it\<lparr>status := st\<rparr> # post) 70"
    using _ r by (rule section_score_upgrade) simp
  moreover have "0 \<le> section_score (pre @ it # post) 70" by (rule section_score_float) simp
  moreover have "0 \<le> section_score nice 30" by (rule section_score_float) simp
  ultimately show "compute_fit_score (pre @ it # post) nice
      \<le> compute_fit_score (pre @ it\<lparr>status := st\<rparr> # post) nice"
    unfolding compute_fit_score_def compute_fit_score_of_def Let_def
    by (intro compute_fit_score_of_mono) simp_all
next
  assume r: "status_rank (status it) \<le> status_rank st"
  have "section_score (pre @ it # post) 30 \<le> section_score (pre @ it\<lparr>status := st\<rparr> # post) 30"
    using _ r by (rule section_score_upgrade) simp
  moreover have "0 \<le> section_score (pre @ it # post) 30" by (rule section_score_float) simp
  moreover have "0 \<le> section_score must 70" by (rule section_score_float) simp
  ultimately show "compute_fit_score must (pre @ it # post)
      \<le> compute_fit_score must (pre @ it\<lparr>status := st\<rparr> # post)"
    unfolding compute_fit_score_def compute_fit_score_of_def Let_def
    by (intro compute_fit_score_of_mono) simp_all
qed

theorem compute_fit_score_monotone_witness:
  "compute_fit_score [match_item [] Missing, match_item [] Match] [match_item [] Partial]
   \<le> compute_fit_score [match_item [] Partial, match_item [] Match] [match_item [] Partial]
   \<and> compute_fit_score [match_item [] Missing, match_item [] Match] [match_item [] Partial]
   \<le> compute_fit_score [match_item [] Missing, match_item [] Match] [match_item [] Match]"
proof -
  have r1: "status_rank (status (match_item [] Missing)) \<le> status_rank Partial"
    by (simp add: match_item_def)
  have r2: "status_rank (status (match_item [] Partial)) \<le> status_rank Match"
    by (simp add: match_item_def)
  have u1: "(match_item [] Missing)\<lparr>status := Partial\<rparr> = match_item [] Partial"
    by (simp add: match_item_def)
  have u2: "(match_item [] Partial)\<lparr>status := Match\<rparr> = match_item [] Match"
    by (simp add: match_item_def)
  from compute_fit_score_monotone [where pre = "[]" and it = "match_item [] Missing"
      and st = Partial and post = "[match_item [] Match]" and nice = "[match_item [] Partial]",
      THEN conjunct1, rule_format, OF r1]
  have 1: "compute_fit_score [match_item [] Missing, match_item [] Match] [match_item [] Partial]
   \<le> compute_fit_score [match_item [] Partial, match_item [] Match] [match_item [] Partial]"
    by (simp only: u1 append_Nil)
  from compute_fit_score_monotone [where pre = "[]" and it = "match_item [] Partial"
      and st = Match and post = "[]" and must = "[match_item [] Missing, match_item [] Match]",
      THEN conjunct2, rule_format, OF r2]
  have 2: "compute_fit_score [match_item [] Missing, match_item [] Match] [match_item [] Partial]
   \<le> compute_fit_score [match_item [] Missing, match_item [] Match] [match_item [] Match]"
    by (simp only: u2 append_Nil)
  from 1 2 show ?thesis by blast
qed

section \<open>The pipeline\<close>

lemma merge_report_ok:
  "merge_report (compute_fit_score must nice) core sugg =
     Inr \<lparr>fit_score = compute_fit_score must nice, confidence = core_confidence core,
          summary = sugg_summary sugg, must_have_match = core_must_have_match core,
          nice_to_have_match = core_nice_to_have_match core, gaps = core_gaps core,
          cv_suggestions = sugg_cv_suggestions sugg,
          linkedin_suggestions = sugg_linkedin_suggestions sugg,
          ats_keywords = sugg_ats_keywords sugg, final_note = sugg_final_note sugg\<rparr>"
  using compute_fit_score_range [of must nice]
  by (simp add: merge_report_def FitReport_init_def)

lemma merge_report_ignores_score:
  "merge_report s (core\<lparr>core_fit_score := x\<rparr>) sugg = merge_report s core sugg"
  by (simp add: merge_report_def)

lemma paths_distinct:
  "out_dir app_root job_id @ [ustr ''fit_report.json''] \<noteq> out_dir app_root job_id @ [ustr ''report.html'']"
  "out_dir app_root job_id @ [ustr ''report.html'']
     \<noteq> job_dir app_root job_id @ [ustr ''llm'', ustr ''fit_suggestions_error.txt'']"
  "out_dir app_root job_id @ [ustr ''fit_report.json'']
     \<noteq> job_dir app_root job_id @ [ustr ''llm'', ustr ''fit_suggestions_error.txt'']"
  by (simp_all add: out_dir_def job_dir_def ustr_def)

text \<open>The result of the pipeline once stage 1 has returned.\<close>

lemma process_job_after_stage1:
  fixes env :: "'j env"
  assumes client: "build_client env = Inr ()"
    and s1: "analyze_fit_core env fs spc utc (normalize_spaced_text cv_txt)
               (normalize_spaced_text job_txt) (Some (job_dir app_root job_id @ [ustr ''llm''])) = (Inr core, fs1)"
    and s2: "suggestions_or_default env fs1 sps uts (normalize_spaced_text cv_txt)
               (normalize_spaced_text job_txt) core (job_dir app_root job_id @ [ustr ''llm'']) = (sugg, fs2)"
    and m: "merge_report (compute_fit_score (core_must_have_match core)
               (core_nice_to_have_match core)) core sugg = Inr report"
  shows "process_job env fs app_root tdir job_id spc utc sps uts cv_txt job_txt job_title =
     (Inr \<lparr>p_json_path = out_dir app_root job_id @ [ustr ''fit_report.json''],
           p_html_path = out_dir app_root job_id @ [ustr ''report.html'']\<rparr>,
      (fs2(out_dir app_root job_id @ [ustr ''fit_report.json''] \<mapsto> dump_report env report))
        (out_dir app_root job_id @ [ustr ''report.html''] \<mapsto>
           render_report_html env report (out_dir app_root job_id @ [ustr ''fit_report.json'']) job_title))"
  by (simp add: process_job_def client s1 s2 m Let_def write_text_def)


lemma suggestions_or_default_Inl:
  assumes "analyze_fit_suggestions env fs sps uts cv jb core (Some dbg) = (Inl e, fs2)"
  shows "suggestions_or_default env fs sps uts cv jb core dbg =
     (FitSuggestions_default, fs2(dbg @ [ustr ''fit_suggestions_error.txt''] \<mapsto> err_str e))"
  by (simp add: suggestions_or_default_def assms write_text_def)

lemma suggestions_or_default_Inr:
  assumes "analyze_fit_suggestions env fs sps uts cv jb core (Some dbg) = (Inr sugg, fs2)"
  shows "suggestions_or_default env fs sps uts cv jb core dbg = (sugg, fs2)"
  by (simp add: suggestions_or_default_def assms)

lemma process_job_Inr_client:
  assumes "fst (process_job env fs app_root tdir job_id spc utc sps uts cv_txt job_txt job_title) = Inr paths"
  shows "build_client env = Inr ()"
proof (cases "build_client env")
  case (Inl e)
  with assms show ?thesis by (simp add: process_job_def)
next
  case (Inr u)
  then show ?thesis by simp
qed

lemma process_job_Inr_stage1:
  assumes "fst (process_job env fs app_root tdir job_id spc utc sps uts cv_txt job_txt job_title) = Inr paths"
  shows "\<exists>core. fst (analyze_fit_core env fs spc utc (normalize_spaced_text cv_txt)
               (normalize_spaced_text job_txt) (Some (job_dir app_root job_id @ [ustr ''llm'']))) = Inr core"
proof -
  let ?s1 = "analyze_fit_core env fs spc utc (normalize_spaced_text cv_txt)
               (normalize_spaced_text job_txt) (Some (job_dir app_root job_id @ [ustr ''llm'']))"
  have client: "build_client env = Inr ()" using assms by (rule process_job_Inr_client)
  obtain x f where xf: "?s1 = (x, f)" by (cases ?s1)
  show ?thesis
  proof (cases x)
    case (Inl e)
    with assms show ?thesis by (simp add: process_job_def Let_def client xf)
  next
    case (Inr core)
    with xf show ?thesis by simp
  qed
qed

lemma example_client: "build_client example_env = Inr ()"
  by (simp add: build_client_def example_env_def ustr_def)

lemma example_stage1:
  "fst (analyze_fit_core example_env fs (ustr ''core'') ut cv jb dbg) = Inr example_core"
  by (simp add: analyze_fit_core_def example_env_def Let_def extract_json_safely_def
      ustr_def strip_def is_space_def crlf_to_space_def replace_char_def)

lemma example_stage2:
  "fst (analyze_fit_suggestions example_env fs (ustr ''sugg'') ut cv jb core dbg)
   = Inl (ClientError (ustr ''timeout''))"
  by (simp add: analyze_fit_suggestions_def example_env_def Let_def ustr_def)

lemma example_score:
  "compute_fit_score (core_must_have_match example_core) (core_nice_to_have_match example_core) = 70"
proof -
  have "compute_fit_score (map (match_item []) [Match]) (map (match_item []) []) = 70"
    by code_simp
  moreover have "compute_fit_score (map (\<lambda>it. match_item [] (status it)) (core_must_have_match example_core))
     (map (\<lambda>it. match_item [] (status it)) (core_nice_to_have_match example_core))
     = compute_fit_score (core_must_have_match example_core) (core_nice_to_have_match example_core)"
    by (rule compute_fit_score_status)
  ultimately show ?thesis by (simp add: example_core_def match_item_def)
qed

lemma example_run:
  "fst (process_job example_env Map.empty [ustr ''srv''] [ustr ''srv'', ustr ''templates'']
          (ustr ''j1'') (ustr ''core'') (ustr ''cv and job: '') (ustr ''sugg'')
          (ustr ''cv, job and fit: '') (ustr ''my cv'') (ustr ''a job'') (ustr ''Engineer''))
   = Inr \<lparr>p_json_path = [ustr ''srv'', ustr ''outputs'', ustr ''j1'', ustr ''fit_report.json''],
          p_html_path = [ustr ''srv'', ustr ''outputs'', ustr ''j1'', ustr ''report.html'']\<rparr>"
proof -
  let ?dbg = "job_dir [ustr ''srv''] (ustr ''j1'') @ [ustr ''llm'']"
  let ?cv = "normalize_spaced_text (ustr ''my cv'')"
  let ?jb = "normalize_spaced_text (ustr ''a job'')"
  let ?s1 = "analyze_fit_core example_env Map.empty (ustr ''core'') (ustr ''cv and job: '')
               ?cv ?jb (Some ?dbg)"
  obtain fs1 where e1: "?s1 = (Inr example_core, fs1)"
    using example_stage1 [of Map.empty "ustr ''cv and job: ''" ?cv ?jb "Some ?dbg"]
    by (cases ?s1) simp
  let ?s2 = "analyze_fit_suggestions example_env fs1 (ustr ''sugg'') (ustr ''cv, job and fit: '')
               ?cv ?jb example_core (Some ?dbg)"
  obtain fs2 where e2: "?s2 = (Inl (ClientError (ustr ''timeout'')), fs2)"
    using example_stage2 [of fs1 "ustr ''cv, job and fit: ''" ?cv ?jb example_core "Some ?dbg"]
    by (cases ?s2) simp
  note sd = suggestions_or_default_Inl [OF e2]
  note m = merge_report_ok [of "core_must_have_match example_core"
      "core_nice_to_have_match example_core" example_core FitSuggestions_default]
  from process_job_after_stage1 [OF example_client e1 sd m,
      of "[ustr ''srv'', ustr ''templates'']" "ustr ''Engineer''"]
  show ?thesis by (simp add: out_dir_def)
qed



text \<open>
  C3. Whenever process_job returns its paths, stage 1 had returned a FitCore and the report
  written has as fit_score the value of compute_fit_score on the two match lists of that
  FitCore; its confidence, match lists and gaps are those of stage 1, and its summary,
  suggestion lists, keywords and final note are those of stage 2, or the defaults when stage
  2 raised. The fit_score that stage 1 reported is not used: the merged report is the same
  for every value of that field.
\<close>

theorem report_score_is_recomputed:
  fixes env :: "'j env" and cfg :: config and fs :: files
    and job_id cv_txt job_txt job_title :: ustring and paths :: job_paths
  defines "dbg \<equiv> job_dir (PROJECT_ROOT cfg) job_id @ [ustr ''llm'']"
    and "cv \<equiv> normalize_spaced_text cv_txt"
    and "jb \<equiv> normalize_spaced_text job_txt"
  defines "stage1 \<equiv> analyze_fit_core env fs (SYSTEM_PROMPT_CORE cfg) (USER_TEMPLATE_CORE cfg)
                       cv jb (Some dbg)"
  defines "stage2 \<equiv> \<lambda>core. analyze_fit_suggestions env (snd stage1) (SYSTEM_PROMPT_SUGG cfg)
                       (USER_TEMPLATE_SUGG cfg) cv jb core (Some dbg)"
  defines "result \<equiv> process_job env fs (PROJECT_ROOT cfg) (TEMPLATES_DIR cfg) job_id
                       (SYSTEM_PROMPT_CORE cfg) (USER_TEMPLATE_CORE cfg)
                       (SYSTEM_PROMPT_SUGG cfg) (USER_TEMPLATE_SUGG cfg) cv_txt job_txt job_title"
  assumes ok: "fst result = Inr paths"
  shows "\<exists>core sugg report.
           fst stage1 = Inr core
         \<and> (fst (stage2 core) = Inr sugg
             \<or> (\<exists>e. fst (stage2 core) = Inl e) \<and> sugg = FitSuggestions_default)
         \<and> snd result (p_json_path paths) = Some (dump_report env report)
         \<and> fit_score report
             = compute_fit_score (core_must_have_match core) (core_nice_to_have_match core)
         \<and> confidence report = core_confidence core
         \<and> must_have_match report = core_must_have_match core
         \<and> nice_to_have_match report = core_nice_to_have_match core
         \<and> gaps report = core_gaps core
         \<and> summary report = sugg_summary sugg
         \<and> cv_suggestions report = sugg_cv_suggestions sugg
         \<and> linkedin_suggestions report = sugg_linkedin_suggestions sugg
         \<and> ats_keywords report = sugg_ats_keywords sugg
         \<and> final_note report = sugg_final_note sugg
         \<and> (\<forall>x. merge_report (fit_score report) (core\<lparr>core_fit_score := x\<rparr>) sugg = Inr report)"
proof -
  let ?dbg = "job_dir (PROJECT_ROOT cfg) job_id @ [ustr ''llm'']"
  let ?cv = "normalize_spaced_text cv_txt"
  let ?jb = "normalize_spaced_text job_txt"
  let ?s1 = "analyze_fit_core env fs (SYSTEM_PROMPT_CORE cfg) (USER_TEMPLATE_CORE cfg)
               ?cv ?jb (Some ?dbg)"
  have client: "build_client env = Inr ()"
    using ok unfolding result_def by (rule process_job_Inr_client)
  obtain core where "fst ?s1 = Inr core"
    using process_job_Inr_stage1 [OF ok [unfolded result_def]] by blast
  then obtain fs1 where e1: "?s1 = (Inr core, fs1)" by (cases ?s1) simp
  let ?s2 = "analyze_fit_suggestions env fs1 (SYSTEM_PROMPT_SUGG cfg) (USER_TEMPLATE_SUGG cfg)
               ?cv ?jb core (Some ?dbg)"
  have st1: "fst stage1 = Inr core" "snd stage1 = fs1"
    unfolding stage1_def cv_def jb_def dbg_def by (simp_all add: e1)
  have st2: "stage2 core = ?s2"
    unfolding stage2_def st1 cv_def jb_def dbg_def ..
  obtain sugg fs2 where
    sd: "suggestions_or_default env fs1 (SYSTEM_PROMPT_SUGG cfg) (USER_TEMPLATE_SUGG cfg)
              ?cv ?jb core ?dbg = (sugg, fs2)"
    and alt: "fst ?s2 = Inr sugg \<or> (\<exists>e. fst ?s2 = Inl e) \<and> sugg = FitSuggestions_default"
  proof (cases "fst ?s2")
    case (Inl e)
    then have "?s2 = (Inl e, snd ?s2)" by (cases ?s2) simp
    then have "suggestions_or_default env fs1 (SYSTEM_PROMPT_SUGG cfg) (USER_TEMPLATE_SUGG cfg)
              ?cv ?jb core ?dbg
        = (FitSuggestions_default, (snd ?s2)(?dbg @ [ustr ''fit_suggestions_error.txt''] \<mapsto> err_str e))"
      by (rule suggestions_or_default_Inl)
    with Inl that show ?thesis by blast
  next
    case (Inr sg)
    then have "?s2 = (Inr sg, snd ?s2)" by (cases ?s2) simp
    then have "suggestions_or_default env fs1 (SYSTEM_PROMPT_SUGG cfg) (USER_TEMPLATE_SUGG cfg)
              ?cv ?jb core ?dbg = (sg, snd ?s2)"
      by (rule suggestions_or_default_Inr)
    with Inr that show ?thesis by blast
  qed
  define report where "report =
     \<lparr>fit_score = compute_fit_score (core_must_have_match core) (core_nice_to_have_match core),
      confidence = core_confidence core, summary = sugg_summary sugg,
      must_have_match = core_must_have_match core,
      nice_to_have_match = core_nice_to_have_match core, gaps = core_gaps core,
      cv_suggestions = sugg_cv_suggestions sugg,
      linkedin_suggestions = sugg_linkedin_suggestions sugg,
      ats_keywords = sugg_ats_keywords sugg, final_note = sugg_final_note sugg\<rparr>"
  have m: "merge_report (compute_fit_score (core_must_have_match core)
             (core_nice_to_have_match core)) core sugg = Inr report"
    unfolding report_def by (rule merge_report_ok)
  have r: "result =
     (Inr \<lparr>p_json_path = out_dir (PROJECT_ROOT cfg) job_id @ [ustr ''fit_report.json''],
           p_html_path = out_dir (PROJECT_ROOT cfg) job_id @ [ustr ''report.html'']\<rparr>,
      (fs2(out_dir (PROJECT_ROOT cfg) job_id @ [ustr ''fit_report.json''] \<mapsto> dump_report env report))
        (out_dir (PROJECT_ROOT cfg) job_id @ [ustr ''report.html''] \<mapsto>
           render_report_html env report
             (out_dir (PROJECT_ROOT cfg) job_id @ [ustr ''fit_report.json'']) job_title))"
    unfolding result_def
    using process_job_after_stage1 [OF client e1 sd m, of "TEMPLATES_DIR cfg" job_title] .
  with ok have p: "paths = \<lparr>p_json_path = out_dir (PROJECT_ROOT cfg) job_id @ [ustr ''fit_report.json''],
           p_html_path = out_dir (PROJECT_ROOT cfg) job_id @ [ustr ''report.html'']\<rparr>"
    by simp
  have written: "snd result (p_json_path paths) = Some (dump_report env report)"
    using paths_distinct(1) [of "PROJECT_ROOT cfg" job_id] by (simp add: r p)
  have fld: "fit_score report
             = compute_fit_score (core_must_have_match core) (core_nice_to_have_match core)"
    "confidence report = core_confidence core"
    "must_have_match report = core_must_have_match core"
    "nice_to_have_match report = core_nice_to_have_match core"
    "gaps report = core_gaps core"
    "summary report = sugg_summary sugg"
    "cv_suggestions report = sugg_cv_suggestions sugg"
    "linkedin_suggestions report = sugg_linkedin_suggestions sugg"
    "ats_keywords report = sugg_ats_keywords sugg"
    "final_note report = sugg_final_note sugg"
    by (simp_all add: report_def)
  have ind: "\<forall>x. merge_report (fit_score report) (core\<lparr>core_fit_score := x\<rparr>) sugg = Inr report"
    using m by (simp add: merge_report_ignores_score fld(1))
  from st1(1) alt written fld ind show ?thesis
    unfolding st2 [symmetric] by blast
qed

theorem report_score_is_recomputed_witness:
  "core_fit_score example_core = 99
   \<and> snd (process_job example_env Map.empty [ustr ''srv''] [ustr ''srv'', ustr ''templates'']
          (ustr ''j1'') (ustr ''core'') (ustr ''cv and job: '') (ustr ''sugg'')
          (ustr ''cv, job and fit: '') (ustr ''my cv'') (ustr ''a job'') (ustr ''Engineer''))
        [ustr ''srv'', ustr ''outputs'', ustr ''j1'', ustr ''fit_report.json'']
     = Some (ustr ''70'')"
proof -
  let ?paths = "\<lparr>p_json_path = [ustr ''srv'', ustr ''outputs'', ustr ''j1'', ustr ''fit_report.json''],
                  p_html_path = [ustr ''srv'', ustr ''outputs'', ustr ''j1'', ustr ''report.html'']\<rparr>"
  let ?result = "process_job example_env Map.empty [ustr ''srv''] [ustr ''srv'', ustr ''templates'']
          (ustr ''j1'') (ustr ''core'') (ustr ''cv and job: '') (ustr ''sugg'')
          (ustr ''cv, job and fit: '') (ustr ''my cv'') (ustr ''a job'') (ustr ''Engineer'')"
  have c: "SYSTEM_PROMPT_CORE example_config = ustr ''core''"
    "SYSTEM_PROMPT_SUGG example_config = ustr ''sugg''"
    "USER_TEMPLATE_CORE example_config = ustr ''cv and job: ''"
    "USER_TEMPLATE_SUGG example_config = ustr ''cv, job and fit: ''"
    "PROJECT_ROOT example_config = [ustr ''srv'']"
    "TEMPLATES_DIR example_config = [ustr ''srv'', ustr ''templates'']"
    by (simp_all add: example_config_def)
  from report_score_is_recomputed [where env = example_env and cfg = example_config
      and fs = Map.empty and job_id = "ustr ''j1''" and cv_txt = "ustr ''my cv''"
      and job_txt = "ustr ''a job''" and job_title = "ustr ''Engineer''" and paths = ?paths,
      unfolded c, OF example_run]
  obtain core report where
    core: "fst (analyze_fit_core example_env Map.empty (ustr ''core'') (ustr ''cv and job: '')
            (normalize_spaced_text (ustr ''my cv'')) (normalize_spaced_text (ustr ''a job''))
            (Some (job_dir [ustr ''srv''] (ustr ''j1'') @ [ustr ''llm'']))) = Inr core"
    and written: "snd ?result (p_json_path ?paths) = Some (dump_report example_env report)"
    and score: "fit_score report
             = compute_fit_score (core_must_have_match core) (core_nice_to_have_match core)"
    by blast
  from core have "core = example_core" by (simp add: example_stage1)
  with score have "fit_score report = 70" by (simp add: example_score)
  then have "dump_report example_env report = ustr ''70''"
    by (simp add: example_env_def str_int_def ustr_def)
  with written have "snd ?result [ustr ''srv'', ustr ''outputs'', ustr ''j1'', ustr ''fit_report.json'']
     = Some (ustr ''70'')" by simp
  moreover have "core_fit_score example_core = 99" by (simp add: example_core_def)
  ultimately show ?thesis by blast
qed

end
